theory Spec2Isabelle
  imports Main "HOL-Library.Word" "HOL-Library.AList"
begin

section \<open>The instruction stream\<close>

text \<open>
  Machine integers of \<^verbatim>\<open>libevmasm/Inliner.cpp\<close> on an LP64 platform: \<^verbatim>\<open>u256\<close> is a
  256-bit unsigned value, \<^verbatim>\<open>uint64_t\<close> and \<^verbatim>\<open>size_t\<close> are 64 bits wide and
  \<^verbatim>\<open>unsigned int\<close> (the type of the literal \<^verbatim>\<open>0u\<close>) is 32 bits wide. All of them
  wrap around. \<^verbatim>\<open>bigint\<close> is an unbounded integer, here \<open>int\<close>.
\<close>

type_synonym u256 = "256 word"
type_synonym uint64_t = "64 word"
type_synonym size_t = "64 word"
type_synonym unsigned_int = "32 word"
type_synonym bigint = int

text \<open>
  Modelled from the spec: the class \<^verbatim>\<open>AssemblyItem\<close> (\<^verbatim>\<open>libevmasm/AssemblyItem.h\<close> is
  not among the sources). The spec's data model gives an instruction a kind, an opaque
  payload naming the label it defines or pushes, and a jump-kind annotation; the record
  below holds what \<^verbatim>\<open>Inliner.cpp\<close> reads through \<^verbatim>\<open>type()\<close>, \<^verbatim>\<open>data()\<close>,
  \<^verbatim>\<open>getJumpType()\<close> and the comparison with \<^verbatim>\<open>Instruction::JUMP\<close>. The kinds the
  inliner never tells apart are \<open>OtherItemType\<close>, the opcodes other than the unconditional
  jump are \<open>OtherInstruction\<close> with their number.
\<close>

datatype AssemblyItemType = Operation | PushTag | Tag | OtherItemType

datatype Instruction = JUMP | OtherInstruction nat

datatype JumpType = Ordinary | IntoFunction | OutOfFunction

record AssemblyItem =
  m_type :: AssemblyItemType
  m_instruction :: Instruction
  m_data :: u256
  m_jumpType :: JumpType

type_synonym AssemblyItems = "AssemblyItem list"

text \<open>\<^verbatim>\<open>item == Instruction::JUMP\<close>: an operation with that opcode, whatever its jump kind.\<close>

definition equalsInstruction :: "AssemblyItem \<Rightarrow> Instruction \<Rightarrow> bool" where
  "equalsInstruction item instr \<longleftrightarrow> m_type item = Operation \<and> m_instruction item = instr"

definition getJumpType :: "AssemblyItem \<Rightarrow> JumpType" where
  "getJumpType item = m_jumpType item"

definition setJumpType :: "JumpType \<Rightarrow> AssemblyItem \<Rightarrow> AssemblyItem" where
  "setJumpType jt item = item\<lparr>m_jumpType := jt\<rparr>"

text \<open>
  A \<^verbatim>\<open>ranges::span<AssemblyItem const>\<close> is a view into the stream: the position of its
  first element and the elements it covers. The stream is not written while a span is
  alive (\<^verbatim>\<open>optimise\<close> appends to \<^verbatim>\<open>newItems\<close> and replaces \<^verbatim>\<open>m_items\<close> after its loop),
  so the elements are those read when the span was taken.
\<close>

record ItemSpan =
  spanStart :: nat
  spanItems :: AssemblyItems

definition sliceItems :: "nat \<Rightarrow> nat \<Rightarrow> AssemblyItems \<Rightarrow> ItemSpan" where
  "sliceItems from to xs = \<lparr>spanStart = from, spanItems = take (to - from) (drop from xs)\<rparr>"

record InlinableBlock =
  items :: ItemSpan
  pushTagCount :: uint64_t

text \<open>
  The two ways a call can fail to return: \<^verbatim>\<open>assertThrow(..., OptimizerException, "")\<close>,
  and \<^verbatim>\<open>back()\<close> of an empty span, which the language leaves undefined.
\<close>

datatype failure = OptimizerException | UndefinedBehaviour

text \<open>
  A \<^verbatim>\<open>std::map\<close> is an association list with one entry per key: \<open>map_of\<close> looks a key
  up, \<open>AList.update\<close> stores a value. The source walks a map in the order of its keys;
  no loop body below depends on the entries visited before it, so the order of the list
  is immaterial.
\<close>

type_synonym 'v tagMap = "(u256 \<times> 'v) list"

section \<open>isInlineCandidate\<close>

definition isInlineCandidate :: "u256 \<Rightarrow> InlinableBlock \<Rightarrow> failure + bool" where
  "isInlineCandidate tag block =
     (if \<not> length (spanItems (items block)) > 0 then Inl OptimizerException
      else if \<exists>item \<in> set (spanItems (items block)). m_type item = PushTag \<and> tag = m_data item
        then Inr False
      else Inr True)"

section \<open>determineInlinableBlocks\<close>

record ScanState =
  inlinableBlockItems :: "ItemSpan tagMap"
  numPushTags :: "uint64_t tagMap"
  lastTag :: "nat option"

text \<open>\<^verbatim>\<open>numPushTags[item.data()]++\<close>: a missing key is created with the value 0 first.\<close>

definition incrementCount :: "u256 \<Rightarrow> uint64_t tagMap \<Rightarrow> uint64_t tagMap" where
  "incrementCount k m = AList.update k ((case map_of m k of None \<Rightarrow> 0 | Some n \<Rightarrow> n) + 1) m"

text \<open>
  One turn of the scanning loop, for the item at position \<open>index\<close>.
  \<^verbatim>\<open>SemanticInformation::breaksCSEAnalysisBlock\<close> is not among the sources: it is the
  parameter \<open>breaksCSEAnalysisBlock\<close>, and every theorem holds for each such function.
\<close>

definition scanItem ::
  "(AssemblyItem \<Rightarrow> bool \<Rightarrow> bool) \<Rightarrow> AssemblyItems \<Rightarrow> ScanState \<Rightarrow> nat \<times> AssemblyItem \<Rightarrow> ScanState"
where
  "scanItem breaksCSEAnalysisBlock allItems st p =
     (case p of (index, item) \<Rightarrow>
        let st1 = (if m_type item = PushTag
                   then st\<lparr>numPushTags := incrementCount (m_data item) (numPushTags st)\<rparr>
                   else st);
            st2 = (case lastTag st1 of
                     Some lt \<Rightarrow>
                       if breaksCSEAnalysisBlock item False
                       then (if equalsInstruction item JUMP
                             then st1\<lparr>inlinableBlockItems :=
                                    AList.update (m_data (allItems ! lt)) (sliceItems (lt + 1) (index + 1) allItems)
                                      (inlinableBlockItems st1)\<rparr>
                             else st1)\<lparr>lastTag := None\<rparr>
                       else st1
                   | None \<Rightarrow> st1)
        in if m_type item = Tag then st2\<lparr>lastTag := Some index\<rparr> else st2)"

definition scanItems :: "(AssemblyItem \<Rightarrow> bool \<Rightarrow> bool) \<Rightarrow> AssemblyItems \<Rightarrow> ScanState" where
  "scanItems breaksCSEAnalysisBlock allItems =
     foldl (scanItem breaksCSEAnalysisBlock allItems)
       \<lparr>inlinableBlockItems = [], numPushTags = [], lastTag = None\<rparr>
       (enumerate 0 allItems)"

text \<open>
  The second loop: a block is kept when its tag has a push count and
  \<^verbatim>\<open>isInlineCandidate\<close> returns true; an exception thrown there leaves the function.
\<close>

fun filterCandidates ::
  "ItemSpan tagMap \<Rightarrow> uint64_t tagMap \<Rightarrow> failure + InlinableBlock tagMap"
where
  "filterCandidates [] counts = Inr []"
| "filterCandidates ((tag, its) # others) counts =
     (case map_of counts tag of
        None \<Rightarrow> filterCandidates others counts
      | Some numPushes \<Rightarrow>
          let block = \<lparr>items = its, pushTagCount = numPushes\<rparr> in
          (case isInlineCandidate tag block of
             Inl e \<Rightarrow> Inl e
           | Inr False \<Rightarrow> filterCandidates others counts
           | Inr True \<Rightarrow>
               (case filterCandidates others counts of
                  Inl e \<Rightarrow> Inl e
                | Inr result \<Rightarrow> Inr ((tag, block) # result))))"

definition determineInlinableBlocks ::
  "(AssemblyItem \<Rightarrow> bool \<Rightarrow> bool) \<Rightarrow> AssemblyItems \<Rightarrow> failure + InlinableBlock tagMap"
where
  "determineInlinableBlocks breaksCSEAnalysisBlock allItems =
     (let st = scanItems breaksCSEAnalysisBlock allItems
      in filterCandidates (inlinableBlockItems st) (numPushTags st))"

section \<open>shouldInline\<close>

text \<open>
  \<^verbatim>\<open>ranges::accumulate(..., 0u)\<close> keeps its running sum in the type of its initial value,
  \<^verbatim>\<open>unsigned int\<close>: each turn adds in \<^verbatim>\<open>size_t\<close> and stores the sum back in 32 bits.
  \<^verbatim>\<open>AssemblyItem::bytesRequired\<close> is not among the sources: it is the parameter
  \<open>bytesRequired\<close>.
\<close>

definition accumulate :: "size_t list \<Rightarrow> unsigned_int \<Rightarrow> unsigned_int" where
  "accumulate xs init = foldl (\<lambda>acc x. ucast ((ucast acc :: size_t) + x)) init xs"

definition codeSize :: "(AssemblyItem \<Rightarrow> size_t \<Rightarrow> size_t) \<Rightarrow> InlinableBlock \<Rightarrow> size_t" where
  "codeSize bytesRequired block =
     ucast (accumulate (map (\<lambda>item. bytesRequired item 3) (butlast (spanItems (items block)))) 0)"

text \<open>
  The three costs become \<^verbatim>\<open>bigint\<close> values. The first is computed in \<^verbatim>\<open>bigint\<close> from its
  first factor on; the other two are computed in 64 bits and converted afterwards.
\<close>

definition uninlinedExecutionCost :: "nat \<Rightarrow> InlinableBlock \<Rightarrow> bigint" where
  "uninlinedExecutionCost m_runs block = int m_runs * 24 * uint (pushTagCount block)"

definition uninlinedDepositCost :: "(AssemblyItem \<Rightarrow> size_t \<Rightarrow> size_t) \<Rightarrow> InlinableBlock \<Rightarrow> bigint" where
  "uninlinedDepositCost bytesRequired block =
     uint ((8 * pushTagCount block + 2 + codeSize bytesRequired block) * 200)"

definition inlinedCost :: "(AssemblyItem \<Rightarrow> size_t \<Rightarrow> size_t) \<Rightarrow> InlinableBlock \<Rightarrow> bigint" where
  "inlinedCost bytesRequired block =
     uint (pushTagCount block * codeSize bytesRequired block * 200)"

text \<open>
  \<open>m_runs\<close> is converted to \<^verbatim>\<open>bigint\<close> before it is used, so its width plays no role: it
  is a natural number here. The tag argument of the source has no name and is not read.
\<close>

definition shouldInline ::
  "(AssemblyItem \<Rightarrow> size_t \<Rightarrow> size_t) \<Rightarrow> nat \<Rightarrow> u256 \<Rightarrow> AssemblyItem \<Rightarrow> InlinableBlock
     \<Rightarrow> failure + AssemblyItem option"
where
  "shouldInline bytesRequired m_runs tag jump block =
     (if spanItems (items block) = [] then Inl UndefinedBehaviour
      else
        let exitJump = last (spanItems (items block)) in
        if getJumpType jump = IntoFunction \<and> getJumpType exitJump = OutOfFunction
        then
          (if uninlinedExecutionCost m_runs block + uninlinedDepositCost bytesRequired block
                > inlinedCost bytesRequired block
           then Inr (Some (setJumpType Ordinary exitJump))
           else Inr None)
        else Inr None)"

section \<open>optimise\<close>

text \<open>
  The state of the rewriting loop: the items from the iterator \<^verbatim>\<open>it\<close> to the end of
  \<^verbatim>\<open>m_items\<close>, the candidate map with its counts, and the output built so far.
\<close>

record OptimiseState =
  remaining :: AssemblyItems
  inlinableBlocks :: "InlinableBlock tagMap"
  newItems :: AssemblyItems

text \<open>\<^verbatim>\<open>++block->pushTagCount\<close> for an inlined item that pushes the tag of a candidate.\<close>

definition countInlinedPush :: "InlinableBlock tagMap \<Rightarrow> AssemblyItem \<Rightarrow> InlinableBlock tagMap" where
  "countInlinedPush blocks inlinedItem =
     (if m_type inlinedItem = PushTag
      then (case map_of blocks (m_data inlinedItem) of
              Some block \<Rightarrow>
                AList.update (m_data inlinedItem) (block\<lparr>pushTagCount := pushTagCount block + 1\<rparr>) blocks
            | None \<Rightarrow> blocks)
      else blocks)"

text \<open>The body of the accepted branch: the copy, then the bookkeeping, then \<^verbatim>\<open>++it\<close>.\<close>

definition inlineBlock ::
  "OptimiseState \<Rightarrow> u256 \<Rightarrow> InlinableBlock \<Rightarrow> AssemblyItem \<Rightarrow> AssemblyItems \<Rightarrow> OptimiseState"
where
  "inlineBlock s tag inlinableBlock exitJump after =
     \<lparr>remaining = after,
      inlinableBlocks =
        foldl countInlinedPush
          (AList.update tag (inlinableBlock\<lparr>pushTagCount := pushTagCount inlinableBlock - 1\<rparr>)
             (inlinableBlocks s))
          (spanItems (items inlinableBlock)),
      newItems = newItems s @ butlast (spanItems (items inlinableBlock)) @ [exitJump]\<rparr>"

definition emitItem :: "OptimiseState \<Rightarrow> AssemblyItem \<Rightarrow> AssemblyItems \<Rightarrow> OptimiseState" where
  "emitItem s item after = s\<lparr>remaining := after, newItems := newItems s @ [item]\<rparr>"

text \<open>One turn of the loop over \<^verbatim>\<open>m_items\<close>, with the \<^verbatim>\<open>++it\<close> of the loop header.\<close>

definition optimiseStep ::
  "(AssemblyItem \<Rightarrow> size_t \<Rightarrow> size_t) \<Rightarrow> nat \<Rightarrow> OptimiseState \<Rightarrow> failure + OptimiseState"
where
  "optimiseStep bytesRequired m_runs s =
     (case remaining s of
        [] \<Rightarrow> Inr s
      | item # after \<Rightarrow>
          (case after of
             [] \<Rightarrow> Inr (emitItem s item after)
           | nextItem # after2 \<Rightarrow>
               if m_type item = PushTag \<and> equalsInstruction nextItem JUMP
               then (case map_of (inlinableBlocks s) (m_data item) of
                       None \<Rightarrow> Inr (emitItem s item after)
                     | Some inlinableBlock \<Rightarrow>
                         (case shouldInline bytesRequired m_runs (m_data item) nextItem inlinableBlock of
                            Inl e \<Rightarrow> Inl e
                          | Inr None \<Rightarrow> Inr (emitItem s item after)
                          | Inr (Some exitJump) \<Rightarrow>
                              Inr (inlineBlock s (m_data item) inlinableBlock exitJump after2)))
               else Inr (emitItem s item after)))"

function optimiseLoop ::
  "(AssemblyItem \<Rightarrow> size_t \<Rightarrow> size_t) \<Rightarrow> nat \<Rightarrow> OptimiseState \<Rightarrow> failure + OptimiseState"
where
  "optimiseLoop bytesRequired m_runs s =
     (if remaining s = [] then Inr s
      else (case optimiseStep bytesRequired m_runs s of
              Inl e \<Rightarrow> Inl e
            | Inr s' \<Rightarrow> optimiseLoop bytesRequired m_runs s'))"
  by pat_completeness auto
termination
  by (relation "measure (\<lambda>(bytesRequired, m_runs, s). length (remaining s))")
     (auto simp: optimiseStep_def emitItem_def inlineBlock_def
        split: list.splits if_splits option.splits sum.splits)

definition optimise ::
  "(AssemblyItem \<Rightarrow> bool \<Rightarrow> bool) \<Rightarrow> (AssemblyItem \<Rightarrow> size_t \<Rightarrow> size_t) \<Rightarrow> nat
     \<Rightarrow> AssemblyItems \<Rightarrow> failure + AssemblyItems"
where
  "optimise breaksCSEAnalysisBlock bytesRequired m_runs m_items =
     (case determineInlinableBlocks breaksCSEAnalysisBlock m_items of
        Inl e \<Rightarrow> Inl e
      | Inr blocks \<Rightarrow>
          if blocks = [] then Inr m_items
          else (case optimiseLoop bytesRequired m_runs
                       \<lparr>remaining = m_items, inlinableBlocks = blocks, newItems = []\<rparr> of
                  Inl e \<Rightarrow> Inl e
                | Inr s \<Rightarrow> Inr (newItems s)))"

text \<open>
  The states the loop of \<^verbatim>\<open>optimise\<close> goes through, from the state \<open>s0\<close> it starts in:
  one more turn is taken while the iterator has not reached the end.
\<close>

inductive optimiseReaches ::
  "(AssemblyItem \<Rightarrow> size_t \<Rightarrow> size_t) \<Rightarrow> nat \<Rightarrow> OptimiseState \<Rightarrow> OptimiseState \<Rightarrow> bool"
  for bytesRequired :: "AssemblyItem \<Rightarrow> size_t \<Rightarrow> size_t" and m_runs :: nat and s0 :: OptimiseState
where
  start: "optimiseReaches bytesRequired m_runs s0 s0"
| turn: "optimiseReaches bytesRequired m_runs s0 s \<Longrightarrow> remaining s \<noteq> [] \<Longrightarrow>
         optimiseStep bytesRequired m_runs s = Inr s' \<Longrightarrow>
         optimiseReaches bytesRequired m_runs s0 s'"

text \<open>The state \<^verbatim>\<open>optimise\<close> enters its loop in.\<close>

definition initialState :: "AssemblyItems \<Rightarrow> InlinableBlock tagMap \<Rightarrow> OptimiseState" where
  "initialState m_items blocks = \<lparr>remaining = m_items, inlinableBlocks = blocks, newItems = []\<rparr>"

text \<open>How many items of a sequence push the address of the tag \<open>t\<close>.\<close>

definition pushesOf :: "u256 \<Rightarrow> AssemblyItems \<Rightarrow> nat" where
  "pushesOf t xs = length (filter (\<lambda>item. m_type item = PushTag \<and> m_data item = t) xs)"

section \<open>Notions for the proofs\<close>

text \<open>
  The scanning loop of \<^verbatim>\<open>determineInlinableBlocks\<close> after its first \<open>n\<close> turns.
\<close>

definition scanPrefix :: "(AssemblyItem \<Rightarrow> bool \<Rightarrow> bool) \<Rightarrow> AssemblyItems \<Rightarrow> nat \<Rightarrow> ScanState" where
  "scanPrefix breaksCSEAnalysisBlock allItems n =
     foldl (scanItem breaksCSEAnalysisBlock allItems)
       \<lparr>inlinableBlockItems = [], numPushTags = [], lastTag = None\<rparr>
       (enumerate 0 (take n allItems))"

text \<open>
  What the extraction promises of a span \<open>sp\<close> stored for the tag \<open>t\<close>: it starts right
  after a definition of \<open>t\<close>, lies inside the stream and holds the stream's items at its
  positions; it is not empty and its last item is the unconditional jump, the first item
  after the tag that breaks the block; no tag is defined inside it.
\<close>

definition blockSpansTag ::
  "(AssemblyItem \<Rightarrow> bool \<Rightarrow> bool) \<Rightarrow> AssemblyItems \<Rightarrow> u256 \<Rightarrow> ItemSpan \<Rightarrow> bool"
where
  "blockSpansTag br allItems t sp \<longleftrightarrow>
     0 < spanStart sp \<and> spanItems sp \<noteq> []
     \<and> spanStart sp + length (spanItems sp) \<le> length allItems
     \<and> spanItems sp = take (length (spanItems sp)) (drop (spanStart sp) allItems)
     \<and> m_type (allItems ! (spanStart sp - 1)) = Tag
     \<and> m_data (allItems ! (spanStart sp - 1)) = t
     \<and> equalsInstruction (last (spanItems sp)) JUMP
     \<and> br (last (spanItems sp)) False
     \<and> (\<forall>j. spanStart sp \<le> j \<and> j + 1 < spanStart sp + length (spanItems sp)
            \<longrightarrow> \<not> br (allItems ! j) False)
     \<and> (\<forall>j. spanStart sp \<le> j \<and> j < spanStart sp + length (spanItems sp)
            \<longrightarrow> m_type (allItems ! j) \<noteq> Tag)"

text \<open>
  Two candidate maps agree when they have the same tags with the same spans: the loop of
  \<^verbatim>\<open>optimise\<close> changes the counts only.
\<close>

definition blocksAgree :: "InlinableBlock tagMap \<Rightarrow> InlinableBlock tagMap \<Rightarrow> bool" where
  "blocksAgree bl bl' \<longleftrightarrow> (\<forall>t. map_option items (map_of bl' t) = map_option items (map_of bl t))"

text \<open>
  What the counts keep during the loop: the count of a tag is the number of pushes of the
  tag in the output built so far and in the items still to be scanned, as a 64-bit value.
\<close>

definition countsTrackPushes :: "OptimiseState \<Rightarrow> bool" where
  "countsTrackPushes s \<longleftrightarrow>
     (\<forall>t b. map_of (inlinableBlocks s) t = Some b \<longrightarrow>
        pushTagCount b = of_nat (pushesOf t (newItems s) + pushesOf t (remaining s)))"

section \<open>The cost model as the specification words it\<close>

text \<open>
  The specification's formulas, over the integers: \<open>codeSize\<close> is the sum of the byte
  sizes of all instructions of the block but the last, each at address width 3, and the
  three costs are the exact values of their expressions.
\<close>

definition specCodeSize :: "(AssemblyItem \<Rightarrow> size_t \<Rightarrow> size_t) \<Rightarrow> InlinableBlock \<Rightarrow> int" where
  "specCodeSize bytesRequired block =
     sum_list (map (\<lambda>item. uint (bytesRequired item 3)) (butlast (spanItems (items block))))"

definition specUninlinedExecutionCost :: "nat \<Rightarrow> InlinableBlock \<Rightarrow> int" where
  "specUninlinedExecutionCost runsWeight block = int runsWeight * 24 * uint (pushTagCount block)"

definition specUninlinedDepositCost :: "(AssemblyItem \<Rightarrow> size_t \<Rightarrow> size_t) \<Rightarrow> InlinableBlock \<Rightarrow> int" where
  "specUninlinedDepositCost bytesRequired block =
     (8 * uint (pushTagCount block) + 2 + specCodeSize bytesRequired block) * 200"

definition specInlinedCost :: "(AssemblyItem \<Rightarrow> size_t \<Rightarrow> size_t) \<Rightarrow> InlinableBlock \<Rightarrow> int" where
  "specInlinedCost bytesRequired block =
     uint (pushTagCount block) * specCodeSize bytesRequired block * 200"

definition specDecide ::
  "(AssemblyItem \<Rightarrow> size_t \<Rightarrow> size_t) \<Rightarrow> nat \<Rightarrow> AssemblyItem \<Rightarrow> InlinableBlock \<Rightarrow> AssemblyItem option"
where
  "specDecide bytesRequired runsWeight callSiteJump block =
     (if m_jumpType callSiteJump = IntoFunction
         \<and> m_jumpType (last (spanItems (items block))) = OutOfFunction
         \<and> specUninlinedExecutionCost runsWeight block + specUninlinedDepositCost bytesRequired block
             > specInlinedCost bytesRequired block
      then Some ((last (spanItems (items block)))\<lparr>m_jumpType := Ordinary\<rparr>)
      else None)"

section \<open>Example items\<close>

text \<open>
  Items, and one choice of the two functions the inliner takes from its collaborators, for
  evaluating the definitions on concrete streams: a tag and the unconditional jump end a
  block, a tag push takes one byte and its address, every other item one byte.
\<close>

definition operationItem :: "nat \<Rightarrow> AssemblyItem" where
  "operationItem n =
     \<lparr>m_type = Operation, m_instruction = OtherInstruction n, m_data = 0, m_jumpType = Ordinary\<rparr>"

definition jumpItem :: "JumpType \<Rightarrow> AssemblyItem" where
  "jumpItem jt = \<lparr>m_type = Operation, m_instruction = JUMP, m_data = 0, m_jumpType = jt\<rparr>"

definition pushTagItem :: "u256 \<Rightarrow> AssemblyItem" where
  "pushTagItem t =
     \<lparr>m_type = PushTag, m_instruction = OtherInstruction 0, m_data = t, m_jumpType = Ordinary\<rparr>"

definition tagItem :: "u256 \<Rightarrow> AssemblyItem" where
  "tagItem t =
     \<lparr>m_type = Tag, m_instruction = OtherInstruction 0, m_data = t, m_jumpType = Ordinary\<rparr>"

definition exampleBreaks :: "AssemblyItem \<Rightarrow> bool \<Rightarrow> bool" where
  "exampleBreaks item msizeImportant \<longleftrightarrow> m_type item = Tag \<or> equalsInstruction item JUMP"

definition exampleBytesRequired :: "AssemblyItem \<Rightarrow> size_t \<Rightarrow> size_t" where
  "exampleBytesRequired item addressLength = (if m_type item = PushTag then 1 + addressLength else 1)"

text \<open>
  A stream of nine items: a push of tag 1, a call of tag 2, the definition of tag 1 (whose
  block runs into the next tag) and the definition of tag 2 with a body of two operations
  and the return jump. And a stream of five: a call of tag 2 and its definition.
\<close>

definition exampleStream :: AssemblyItems where
  "exampleStream =
     [pushTagItem 1, pushTagItem 2, jumpItem IntoFunction,
      tagItem 1, operationItem 1,
      tagItem 2, operationItem 1, operationItem 1, jumpItem OutOfFunction]"

definition exampleCall :: AssemblyItems where
  "exampleCall =
     [pushTagItem 2, jumpItem IntoFunction,
      tagItem 2, operationItem 1, jumpItem OutOfFunction]"

text \<open>
  The call with an ordinary jump at the call site, a block that pushes its own tag, and the
  block the extraction finds for tag 2 in the five-item streams.
\<close>

definition exampleOrdinaryCall :: AssemblyItems where
  "exampleOrdinaryCall =
     [pushTagItem 2, jumpItem Ordinary,
      tagItem 2, operationItem 1, jumpItem OutOfFunction]"

definition exampleSelfCall :: AssemblyItems where
  "exampleSelfCall =
     [pushTagItem 3, jumpItem IntoFunction,
      tagItem 3, pushTagItem 3, jumpItem OutOfFunction]"

definition exampleBlock :: InlinableBlock where
  "exampleBlock =
     \<lparr>items = \<lparr>spanStart = 3, spanItems = [operationItem 1, jumpItem OutOfFunction]\<rparr>,
      pushTagCount = 1\<rparr>"

section \<open>The decision function\<close>

text \<open>
  C10. The decision is monotone in the runs weight: when \<^verbatim>\<open>shouldInline\<close> accepts a call
  site and a block with the weight \<open>r\<close>, it accepts them with every weight \<open>r' \<ge> r\<close>, and
  returns the same rewritten exit instruction.
\<close>

theorem shouldInline_monotone_in_runs:
  assumes "shouldInline bytesRequired r tag jump block = Inr (Some exitJump)" and "r \<le> r'"
  shows "shouldInline bytesRequired r' tag jump block = Inr (Some exitJump)"
proof -
  have "int r * 24 * uint (pushTagCount block) \<le> int r' * 24 * uint (pushTagCount block)"
    using \<open>r \<le> r'\<close> by (intro mult_right_mono) simp_all
  then have "uninlinedExecutionCost r block \<le> uninlinedExecutionCost r' block"
    by (simp add: uninlinedExecutionCost_def)
  with assms(1) show ?thesis
    by (auto simp: shouldInline_def Let_def split: if_splits)
qed

theorem shouldInline_monotone_in_runs_witness:
  "shouldInline exampleBytesRequired 1 7 (jumpItem IntoFunction)
     \<lparr>items = \<lparr>spanStart = 3, spanItems = [operationItem 1, jumpItem OutOfFunction]\<rparr>, pushTagCount = 2\<rparr>
     = Inr (Some (jumpItem Ordinary))
   \<and> (1::nat) \<le> 200
   \<and> shouldInline exampleBytesRequired 200 7 (jumpItem IntoFunction)
     \<lparr>items = \<lparr>spanStart = 3, spanItems = [operationItem 1, jumpItem OutOfFunction]\<rparr>, pushTagCount = 2\<rparr>
     = Inr (Some (jumpItem Ordinary))"
proof -
  have a: "shouldInline exampleBytesRequired 1 7 (jumpItem IntoFunction)
     \<lparr>items = \<lparr>spanStart = 3, spanItems = [operationItem 1, jumpItem OutOfFunction]\<rparr>, pushTagCount = 2\<rparr>
     = Inr (Some (jumpItem Ordinary))"
    by (simp add: shouldInline_def Let_def getJumpType_def setJumpType_def inlinedCost_def
        uninlinedExecutionCost_def uninlinedDepositCost_def codeSize_def accumulate_def
        jumpItem_def operationItem_def exampleBytesRequired_def)
  have b: "(1::nat) \<le> 200" by simp
  from shouldInline_monotone_in_runs [OF a b] a b show ?thesis by simp
qed

section \<open>The cost arithmetic\<close>

text \<open>
  What the 32-bit running sum and the 64-bit products hold, next to the specification's
  exact values: the code size is the exact sum modulo \<open>2 ^ 32\<close>, and the costs agree with
  the formulas as long as no intermediate value leaves its width.
\<close>

lemma uint_accumulate:
  "uint (accumulate xs init) = (uint init + sum_list (map uint xs)) mod 2 ^ 32"
proof (induction xs arbitrary: init)
  case Nil
  show ?case using uint_bounded [of init] by (simp add: accumulate_def)
next
  case (Cons x xs)
  have "uint init < 2 ^ 64"
    using uint_bounded [of init] by simp
  then have small: "uint init mod 18446744073709551616 = uint init"
    by simp
  have step: "uint (ucast ((ucast init :: size_t) + x) :: unsigned_int) = (uint init + uint x) mod 2 ^ 32"
    by (simp add: unsigned_ucast_eq uint_word_ariths take_bit_eq_mod mod_mod_cancel small)
  have "accumulate (x # xs) init = accumulate xs (ucast ((ucast init :: size_t) + x))"
    by (simp add: accumulate_def)
  then show ?case
    by (simp add: Cons.IH step mod_add_left_eq add.assoc)
qed

lemma uint_codeSize:
  "uint (codeSize bytesRequired block) = specCodeSize bytesRequired block mod 2 ^ 32"
  by (simp add: codeSize_def specCodeSize_def unsigned_ucast_eq uint_accumulate take_bit_eq_mod comp_def)

lemma specCodeSize_nonneg: "0 \<le> specCodeSize bytesRequired block"
  unfolding specCodeSize_def by (rule sum_list_nonneg) auto

lemma costs_exact:
  assumes "specCodeSize bytesRequired block < 2 ^ 32"
    and "specUninlinedDepositCost bytesRequired block < 2 ^ 64"
    and "specInlinedCost bytesRequired block < 2 ^ 64"
  shows "uninlinedExecutionCost m_runs block = specUninlinedExecutionCost m_runs block"
    and "uninlinedDepositCost bytesRequired block = specUninlinedDepositCost bytesRequired block"
    and "inlinedCost bytesRequired block = specInlinedCost bytesRequired block"
proof -
  have cs: "uint (codeSize bytesRequired block) = specCodeSize bytesRequired block"
    using assms(1) specCodeSize_nonneg [of bytesRequired block] by (simp add: uint_codeSize)
  show "uninlinedExecutionCost m_runs block = specUninlinedExecutionCost m_runs block"
    by (simp add: uninlinedExecutionCost_def specUninlinedExecutionCost_def)
  have "uint ((8 * pushTagCount block + 2 + codeSize bytesRequired block) * 200)
      = ((8 * uint (pushTagCount block) + 2 + specCodeSize bytesRequired block) * 200) mod 2 ^ 64"
    by (simp add: uint_word_ariths cs [symmetric] mod_simps)
  also have "\<dots> = (8 * uint (pushTagCount block) + 2 + specCodeSize bytesRequired block) * 200"
    using assms(2) specCodeSize_nonneg [of bytesRequired block]
    by (simp add: specUninlinedDepositCost_def)
  finally show "uninlinedDepositCost bytesRequired block = specUninlinedDepositCost bytesRequired block"
    by (simp add: uninlinedDepositCost_def specUninlinedDepositCost_def)
  have "uint (pushTagCount block * codeSize bytesRequired block * 200)
      = (uint (pushTagCount block) * specCodeSize bytesRequired block * 200) mod 2 ^ 64"
    by (simp add: uint_word_ariths cs [symmetric] mod_simps)
  also have "\<dots> = uint (pushTagCount block) * specCodeSize bytesRequired block * 200"
    using assms(3) specCodeSize_nonneg [of bytesRequired block]
    by (simp add: specInlinedCost_def)
  finally show "inlinedCost bytesRequired block = specInlinedCost bytesRequired block"
    by (simp add: inlinedCost_def specInlinedCost_def)
qed

text \<open>
  Where nothing wraps, \<^verbatim>\<open>shouldInline\<close> decides as the formulas of the specification do.
\<close>

lemma shouldInline_exact_without_wrap:
  assumes "spanItems (items block) \<noteq> []"
    and "specCodeSize bytesRequired block < 2 ^ 32"
    and "specUninlinedDepositCost bytesRequired block < 2 ^ 64"
    and "specInlinedCost bytesRequired block < 2 ^ 64"
  shows "shouldInline bytesRequired m_runs tag jump block = Inr (specDecide bytesRequired m_runs jump block)"
  using assms(1) costs_exact [OF assms(2-4)]
  by (simp add: shouldInline_def specDecide_def Let_def getJumpType_def setJumpType_def)

text \<open>
  C3. All cost arithmetic is exact. The code declares the three costs as \<^verbatim>\<open>bigint\<close>, but
  computes the deposit cost and the inlined cost in \<^verbatim>\<open>uint64_t\<close> before the conversion,
  and sums the code size in \<^verbatim>\<open>unsigned int\<close>: with 11529215046068470 call sites and
  one byte of body the deposit cost is 984 where the formula gives 18446744073709552600,
  with \<open>2 ^ 57\<close> call sites the inlined cost has lost \<open>2 ^ 64\<close>, and two items of
  \<open>2 ^ 31\<close> bytes each sum to the code size 0.
\<close>

theorem cost_arithmetic_wraps:
  "uninlinedDepositCost exampleBytesRequired
     \<lparr>items = \<lparr>spanStart = 1, spanItems = [operationItem 1, jumpItem OutOfFunction]\<rparr>,
      pushTagCount = 11529215046068470\<rparr> = 984
   \<and> specUninlinedDepositCost exampleBytesRequired
     \<lparr>items = \<lparr>spanStart = 1, spanItems = [operationItem 1, jumpItem OutOfFunction]\<rparr>,
      pushTagCount = 11529215046068470\<rparr> = 18446744073709552600
   \<and> inlinedCost exampleBytesRequired
     \<lparr>items = \<lparr>spanStart = 1, spanItems = [operationItem 1, jumpItem OutOfFunction]\<rparr>,
      pushTagCount = 144115188075855872\<rparr> = 10376293541461622784
   \<and> specInlinedCost exampleBytesRequired
     \<lparr>items = \<lparr>spanStart = 1, spanItems = [operationItem 1, jumpItem OutOfFunction]\<rparr>,
      pushTagCount = 144115188075855872\<rparr> = 28823037615171174400
   \<and> codeSize (\<lambda>item addressLength. 2147483648)
     \<lparr>items = \<lparr>spanStart = 1, spanItems = [operationItem 1, operationItem 2, jumpItem OutOfFunction]\<rparr>,
      pushTagCount = 1\<rparr> = 0
   \<and> specCodeSize (\<lambda>item addressLength. 2147483648)
     \<lparr>items = \<lparr>spanStart = 1, spanItems = [operationItem 1, operationItem 2, jumpItem OutOfFunction]\<rparr>,
      pushTagCount = 1\<rparr> = 4294967296"
  by (simp add: uninlinedDepositCost_def specUninlinedDepositCost_def inlinedCost_def
      specInlinedCost_def codeSize_def specCodeSize_def accumulate_def
      exampleBytesRequired_def operationItem_def jumpItem_def)

text \<open>
  C1. \<^verbatim>\<open>shouldInline\<close> returns the rewritten exit jump exactly when the jump kinds fit and
  the exact cost comparison holds. At the block below the comparison of the specification
  holds (the call is into a function, the exit out of one, and the exact costs favour
  inlining), and the code returns \<^verbatim>\<open>nullopt\<close>, since its deposit cost has wrapped to 984.
\<close>

theorem shouldInline_rejects_where_formula_accepts:
  "shouldInline exampleBytesRequired 1 7 (jumpItem IntoFunction)
     \<lparr>items = \<lparr>spanStart = 1, spanItems = [operationItem 1, jumpItem OutOfFunction]\<rparr>,
      pushTagCount = 11529215046068470\<rparr> = Inr None
   \<and> specDecide exampleBytesRequired 1 (jumpItem IntoFunction)
     \<lparr>items = \<lparr>spanStart = 1, spanItems = [operationItem 1, jumpItem OutOfFunction]\<rparr>,
      pushTagCount = 11529215046068470\<rparr> = Some (jumpItem Ordinary)"
  by (simp add: shouldInline_def specDecide_def Let_def getJumpType_def setJumpType_def
      uninlinedExecutionCost_def specUninlinedExecutionCost_def
      uninlinedDepositCost_def specUninlinedDepositCost_def inlinedCost_def
      specInlinedCost_def codeSize_def specCodeSize_def accumulate_def
      exampleBytesRequired_def operationItem_def jumpItem_def)

section \<open>The block extractor\<close>

text \<open>
  The scanning loop, turn by turn: what one turn does to each of the three variables, and
  what holds of them after \<open>n\<close> turns.
\<close>

lemma scanPrefix_0: "scanPrefix br xs 0 = \<lparr>inlinableBlockItems = [], numPushTags = [], lastTag = None\<rparr>"
  by (simp add: scanPrefix_def)

lemma scanPrefix_Suc:
  assumes "n < length xs"
  shows "scanPrefix br xs (Suc n) = scanItem br xs (scanPrefix br xs n) (n, xs ! n)"
  using assms by (simp add: scanPrefix_def take_Suc_conv_app_nth enumerate_append_eq)

lemma scanItems_scanPrefix: "scanItems br xs = scanPrefix br xs (length xs)"
  by (simp add: scanItems_def scanPrefix_def)

lemma numPushTags_scanItem:
  "numPushTags (scanItem br xs st (n, item)) =
     (if m_type item = PushTag then incrementCount (m_data item) (numPushTags st) else numPushTags st)"
  by (simp add: scanItem_def Let_def split: option.splits)

lemma lastTag_scanItem:
  "lastTag (scanItem br xs st (n, item)) =
     (if m_type item = Tag then Some n
      else if br item False then None else lastTag st)"
  by (simp add: scanItem_def Let_def split: option.splits)

lemma inlinableBlockItems_scanItem:
  "inlinableBlockItems (scanItem br xs st (n, item)) =
     (case lastTag st of
        None \<Rightarrow> inlinableBlockItems st
      | Some lt \<Rightarrow>
          if br item False \<and> equalsInstruction item JUMP
          then AList.update (m_data (xs ! lt)) (sliceItems (lt + 1) (n + 1) xs) (inlinableBlockItems st)
          else inlinableBlockItems st)"
  by (simp add: scanItem_def Let_def split: option.splits)

lemma map_of_incrementCount:
  "map_of (incrementCount k m) t =
     (if t = k then Some ((case map_of m k of None \<Rightarrow> 0 | Some n \<Rightarrow> n) + 1) else map_of m t)"
  by (simp add: incrementCount_def update_conv')

lemma pushesOf_take_Suc:
  assumes "n < length xs"
  shows "pushesOf t (take (Suc n) xs) =
     pushesOf t (take n xs) + (if m_type (xs ! n) = PushTag \<and> m_data (xs ! n) = t then 1 else 0)"
  using assms by (simp add: pushesOf_def take_Suc_conv_app_nth)

lemma numPushTags_scanPrefix:
  assumes "n \<le> length xs"
  shows "map_of (numPushTags (scanPrefix br xs n)) t =
     (if pushesOf t (take n xs) = 0 then None else Some (of_nat (pushesOf t (take n xs))))"
  using assms
proof (induction n)
  case 0
  show ?case by (simp add: scanPrefix_0 pushesOf_def)
next
  case (Suc n)
  then have n: "n < length xs" and IH: "map_of (numPushTags (scanPrefix br xs n)) t =
     (if pushesOf t (take n xs) = 0 then None else Some (of_nat (pushesOf t (take n xs))))"
    by simp_all
  show ?case
    by (simp add: scanPrefix_Suc [OF n] numPushTags_scanItem map_of_incrementCount
        pushesOf_take_Suc [OF n] IH)
qed

lemma distinct_scanPrefix:
  assumes "n \<le> length xs"
  shows "distinct (map fst (inlinableBlockItems (scanPrefix br xs n)))"
  using assms
proof (induction n)
  case 0
  show ?case by (simp add: scanPrefix_0)
next
  case (Suc n)
  then have n: "n < length xs" and IH: "distinct (map fst (inlinableBlockItems (scanPrefix br xs n)))"
    by simp_all
  show ?case
    by (simp add: scanPrefix_Suc [OF n] inlinableBlockItems_scanItem IH distinct_update
        split: option.splits)
qed

lemma lastTag_scanPrefix:
  assumes "n \<le> length xs" and "lastTag (scanPrefix br xs n) = Some lt"
  shows "lt < n \<and> m_type (xs ! lt) = Tag
     \<and> (\<forall>j. lt < j \<and> j < n \<longrightarrow> \<not> br (xs ! j) False \<and> m_type (xs ! j) \<noteq> Tag)"
  using assms
proof (induction n arbitrary: lt)
  case 0
  then show ?case by (simp add: scanPrefix_0)
next
  case (Suc n)
  then have n: "n < length xs" by simp
  show ?case
  proof (cases "m_type (xs ! n) = Tag")
    case True
    with Suc.prems(2) have "lt = n"
      by (simp add: scanPrefix_Suc [OF n] lastTag_scanItem)
    with True show ?thesis by auto
  next
    case False
    with Suc.prems(2) have nb: "\<not> br (xs ! n) False" and old: "lastTag (scanPrefix br xs n) = Some lt"
      by (auto simp: scanPrefix_Suc [OF n] lastTag_scanItem split: if_splits)
    from Suc.IH [OF _ old] n
    have "lt < n" "m_type (xs ! lt) = Tag"
      "\<forall>j. lt < j \<and> j < n \<longrightarrow> \<not> br (xs ! j) False \<and> m_type (xs ! j) \<noteq> Tag"
      by simp_all
    with nb False show ?thesis
      by (auto simp: less_Suc_eq)
  qed
qed


lemma slice_blockSpansTag:
  assumes n: "n < length xs" and lt: "lt < n" and tag: "m_type (xs ! lt) = Tag"
    and inner: "\<forall>j. lt < j \<and> j < n \<longrightarrow> \<not> br (xs ! j) False \<and> m_type (xs ! j) \<noteq> Tag"
    and jump: "equalsInstruction (xs ! n) JUMP" and breaks: "br (xs ! n) False"
  shows "blockSpansTag br xs (m_data (xs ! lt)) (sliceItems (lt + 1) (n + 1) xs)"
proof -
  define sp where "sp = sliceItems (lt + 1) (n + 1) xs"
  have start: "spanStart sp = Suc lt" by (simp add: sp_def sliceItems_def)
  have its: "spanItems sp = take (n - lt) (drop (Suc lt) xs)" by (simp add: sp_def sliceItems_def)
  have len: "length (spanItems sp) = n - lt" using n lt by (simp add: its)
  have ne: "spanItems sp \<noteq> []" using len lt by auto
  have "last (spanItems sp) = spanItems sp ! (n - lt - 1)"
    using ne len by (simp add: last_conv_nth)
  also have "\<dots> = xs ! n" using n lt by (simp add: its)
  finally have lst: "last (spanItems sp) = xs ! n" .
  have notag: "m_type (xs ! n) \<noteq> Tag" using jump by (simp add: equalsInstruction_def)
  have same: "spanItems sp = take (length (spanItems sp)) (drop (spanStart sp) xs)"
    unfolding len start by (simp add: its)
  have "blockSpansTag br xs (m_data (xs ! lt)) sp"
    unfolding blockSpansTag_def lst
    using n lt tag inner jump breaks ne notag same
    by (auto simp: start len less_Suc_eq)
  then show ?thesis by (simp add: sp_def)
qed

lemma blocks_scanPrefix:
  assumes "n \<le> length xs" and "map_of (inlinableBlockItems (scanPrefix br xs n)) t = Some sp"
  shows "blockSpansTag br xs t sp"
  using assms
proof (induction n arbitrary: t sp)
  case 0
  then show ?case by (simp add: scanPrefix_0)
next
  case (Suc n)
  then have n: "n < length xs" by simp
  let ?st = "scanPrefix br xs n"
  show ?case
  proof (cases "\<exists>lt. lastTag ?st = Some lt \<and> br (xs ! n) False \<and> equalsInstruction (xs ! n) JUMP")
    case False
    then have "inlinableBlockItems (scanPrefix br xs (Suc n)) = inlinableBlockItems ?st"
      by (auto simp: scanPrefix_Suc [OF n] inlinableBlockItems_scanItem split: option.splits)
    with Suc.prems(2) Suc.IH [of t sp] n show ?thesis by simp
  next
    case True
    then obtain lt where lt: "lastTag ?st = Some lt" and b: "br (xs ! n) False"
      and j: "equalsInstruction (xs ! n) JUMP" by blast
    from lastTag_scanPrefix [OF _ lt] n
    have p: "lt < n" "m_type (xs ! lt) = Tag"
      "\<forall>j. lt < j \<and> j < n \<longrightarrow> \<not> br (xs ! j) False \<and> m_type (xs ! j) \<noteq> Tag"
      by simp_all
    have new: "blockSpansTag br xs (m_data (xs ! lt)) (sliceItems (lt + 1) (n + 1) xs)"
      by (rule slice_blockSpansTag [of n xs lt br, OF n p j b])
    have "inlinableBlockItems (scanPrefix br xs (Suc n)) =
        AList.update (m_data (xs ! lt)) (sliceItems (lt + 1) (n + 1) xs) (inlinableBlockItems ?st)"
      by (simp add: scanPrefix_Suc [OF n] inlinableBlockItems_scanItem lt b j)
    with Suc.prems(2) have "(t = m_data (xs ! lt) \<and> sp = sliceItems (lt + 1) (n + 1) xs)
        \<or> map_of (inlinableBlockItems ?st) t = Some sp"
      by (auto simp: update_conv' split: if_splits)
    with new Suc.IH [of t sp] n show ?thesis by auto
  qed
qed

lemma blockSpansTag_disjoint:
  assumes a: "blockSpansTag br xs t sp" and b: "blockSpansTag br xs t' sp'" and ne: "t \<noteq> t'"
  shows "spanStart sp + length (spanItems sp) \<le> spanStart sp' - 1
       \<or> spanStart sp' + length (spanItems sp') \<le> spanStart sp - 1"
proof (rule ccontr)
  assume "\<not> ?thesis"
  then have o1: "spanStart sp' - 1 < spanStart sp + length (spanItems sp)"
    and o2: "spanStart sp - 1 < spanStart sp' + length (spanItems sp')" by auto
  have sa: "0 < spanStart sp" and sb: "0 < spanStart sp'"
    using a b by (simp_all add: blockSpansTag_def)
  have ta: "m_type (xs ! (spanStart sp - 1)) = Tag" "m_data (xs ! (spanStart sp - 1)) = t"
    and tb: "m_type (xs ! (spanStart sp' - 1)) = Tag" "m_data (xs ! (spanStart sp' - 1)) = t'"
    using a b by (simp_all add: blockSpansTag_def)
  have na: "\<forall>j. spanStart sp \<le> j \<and> j < spanStart sp + length (spanItems sp) \<longrightarrow> m_type (xs ! j) \<noteq> Tag"
    and nb: "\<forall>j. spanStart sp' \<le> j \<and> j < spanStart sp' + length (spanItems sp') \<longrightarrow> m_type (xs ! j) \<noteq> Tag"
    using a b by (simp_all add: blockSpansTag_def)
  have "spanStart sp \<noteq> spanStart sp'" using ta tb ne by auto
  then consider "spanStart sp < spanStart sp'" | "spanStart sp' < spanStart sp" by linarith
  then show False
  proof cases
    case 1
    then have "spanStart sp \<le> spanStart sp' - 1" by simp
    with o1 na tb(1) show False by blast
  next
    case 2
    then have "spanStart sp' \<le> spanStart sp - 1" by simp
    with o2 nb ta(1) show False by blast
  qed
qed


lemma isInlineCandidate_True_iff:
  "isInlineCandidate t b = Inr True \<longleftrightarrow> spanItems (items b) \<noteq> [] \<and> pushesOf t (spanItems (items b)) = 0"
  by (auto simp: isInlineCandidate_def pushesOf_def filter_empty_conv)

lemma isInlineCandidate_nonempty:
  "spanItems (items b) \<noteq> [] \<Longrightarrow> isInlineCandidate t b = Inr (pushesOf t (spanItems (items b)) = 0)"
  by (auto simp: isInlineCandidate_def pushesOf_def filter_empty_conv)

lemma filterCandidates_total:
  assumes "\<forall>(t, sp) \<in> set bs. spanItems sp \<noteq> []"
  shows "\<exists>res. filterCandidates bs counts = Inr res"
  using assms
proof (induction bs)
  case Nil
  show ?case by simp
next
  case (Cons p bs)
  obtain t sp where p: "p = (t, sp)" by (cases p)
  from Cons.prems p have ne: "spanItems sp \<noteq> []" by simp
  from Cons obtain res where res: "filterCandidates bs counts = Inr res" by auto
  show ?case
    by (simp add: p res isInlineCandidate_nonempty ne Let_def split: option.splits bool.splits)
qed

lemma filterCandidates_keys:
  assumes "filterCandidates bs counts = Inr res"
  shows "fst ` set res \<subseteq> fst ` set bs"
  using assms
proof (induction bs arbitrary: res)
  case Nil
  then show ?case by simp
next
  case (Cons p bs)
  obtain t sp where p: "p = (t, sp)" by (cases p)
  show ?case
  proof (cases "filterCandidates bs counts")
    case (Inl e)
    with Cons.prems show ?thesis
      by (auto simp: p Let_def split: option.splits sum.splits bool.splits)
  next
    case (Inr r)
    from Cons.IH [OF Inr] have sub: "fst ` set r \<subseteq> fst ` set bs" .
    from Cons.prems Inr have "res = r \<or> (\<exists>b. res = (t, b) # r)"
      by (auto simp: p Let_def split: option.splits sum.splits bool.splits)
    with sub show ?thesis unfolding p by force
  qed
qed

lemma filterCandidates_map_of:
  assumes "distinct (map fst bs)" and "filterCandidates bs counts = Inr res"
  shows "map_of res t =
     (case map_of bs t of
        None \<Rightarrow> None
      | Some sp \<Rightarrow>
          (case map_of counts t of
             None \<Rightarrow> None
           | Some n \<Rightarrow>
               if isInlineCandidate t \<lparr>items = sp, pushTagCount = n\<rparr> = Inr True
               then Some \<lparr>items = sp, pushTagCount = n\<rparr> else None))"
  using assms
proof (induction bs arbitrary: res)
  case Nil
  then show ?case by simp
next
  case (Cons p bs)
  obtain k sp where p: "p = (k, sp)" by (cases p)
  from Cons.prems(1) p have d: "distinct (map fst bs)" and fresh: "k \<notin> fst ` set bs" by auto
  from fresh have none: "map_of bs k = None" by (simp add: map_of_eq_None_iff)
  show ?case
  proof (cases "filterCandidates bs counts")
    case (Inl e)
    with Cons.prems(2) have "res = []"
      by (auto simp: p Let_def split: option.splits sum.splits bool.splits)
    with Cons.prems(2) Inl show ?thesis
      by (auto simp: p Let_def split: option.splits sum.splits bool.splits)
  next
    case (Inr r)
    note IH = Cons.IH [OF d Inr]
    from filterCandidates_keys [OF Inr] fresh have "k \<notin> fst ` set r" by auto
    then have rnone: "map_of r k = None" by (simp add: map_of_eq_None_iff)
    from Cons.prems(2) Inr show ?thesis
      by (auto simp: p Let_def IH none rnone split: option.splits sum.splits bool.splits)
  qed
qed

lemma filterCandidates_distinct:
  assumes "distinct (map fst bs)" and "filterCandidates bs counts = Inr res"
  shows "distinct (map fst res)"
  using assms
proof (induction bs arbitrary: res)
  case Nil
  then show ?case by simp
next
  case (Cons p bs)
  obtain k sp where p: "p = (k, sp)" by (cases p)
  from Cons.prems(1) p have d: "distinct (map fst bs)" and fresh: "k \<notin> fst ` set bs" by auto
  show ?case
  proof (cases "filterCandidates bs counts")
    case (Inl e)
    with Cons.prems(2) show ?thesis
      by (auto simp: p Let_def split: option.splits sum.splits bool.splits)
  next
    case (Inr r)
    from filterCandidates_keys [OF Inr] fresh have "k \<notin> fst ` set r" by auto
    with Cons.prems(2) Inr Cons.IH [OF d Inr] show ?thesis
      by (auto simp: p Let_def split: option.splits sum.splits bool.splits)
  qed
qed

lemma scanned_blocks_nonempty:
  "\<forall>(t, sp) \<in> set (inlinableBlockItems (scanItems br xs)). spanItems sp \<noteq> []"
proof -
  have d: "distinct (map fst (inlinableBlockItems (scanItems br xs)))"
    by (simp add: scanItems_scanPrefix distinct_scanPrefix)
  { fix t sp assume "(t, sp) \<in> set (inlinableBlockItems (scanItems br xs))"
    with d have "map_of (inlinableBlockItems (scanItems br xs)) t = Some sp" by simp
    then have "blockSpansTag br xs t sp"
      using blocks_scanPrefix [of "length xs" xs br t sp] by (simp add: scanItems_scanPrefix)
    then have "spanItems sp \<noteq> []" by (simp add: blockSpansTag_def) }
  then show ?thesis by auto
qed

lemma determineInlinableBlocks_total:
  "\<exists>blocks. determineInlinableBlocks br xs = Inr blocks"
  unfolding determineInlinableBlocks_def Let_def
  by (rule filterCandidates_total [OF scanned_blocks_nonempty])

lemma determineInlinableBlocks_distinct:
  assumes "determineInlinableBlocks br xs = Inr blocks"
  shows "distinct (map fst blocks)"
  using assms filterCandidates_distinct [of "inlinableBlockItems (scanItems br xs)"]
  by (simp add: determineInlinableBlocks_def Let_def scanItems_scanPrefix distinct_scanPrefix)

lemma determineInlinableBlocks_entry:
  assumes "determineInlinableBlocks br xs = Inr blocks" and "map_of blocks t = Some b"
  shows "blockSpansTag br xs t (items b)"
    and "pushTagCount b = of_nat (pushesOf t xs)"
    and "0 < pushesOf t xs"
    and "pushesOf t (spanItems (items b)) = 0"
proof -
  let ?st = "scanItems br xs"
  have f: "filterCandidates (inlinableBlockItems ?st) (numPushTags ?st) = Inr blocks"
    using assms(1) by (simp add: determineInlinableBlocks_def Let_def)
  have d: "distinct (map fst (inlinableBlockItems ?st))"
    by (simp add: scanItems_scanPrefix distinct_scanPrefix)
  from filterCandidates_map_of [OF d f, of t] assms(2)
  obtain sp n where sp: "map_of (inlinableBlockItems ?st) t = Some sp"
    and n: "map_of (numPushTags ?st) t = Some n"
    and c: "isInlineCandidate t \<lparr>items = sp, pushTagCount = n\<rparr> = Inr True"
    and b: "b = \<lparr>items = sp, pushTagCount = n\<rparr>"
    by (auto split: option.splits if_splits)
  from sp show "blockSpansTag br xs t (items b)"
    using blocks_scanPrefix [of "length xs" xs br t sp] by (simp add: scanItems_scanPrefix b)
  from n have "map_of (numPushTags (scanPrefix br xs (length xs))) t = Some n"
    by (simp add: scanItems_scanPrefix)
  then have "pushesOf t xs \<noteq> 0 \<and> n = of_nat (pushesOf t xs)"
    using numPushTags_scanPrefix [of "length xs" xs br t] by (auto split: if_splits)
  then show "pushTagCount b = of_nat (pushesOf t xs)" and "0 < pushesOf t xs"
    by (simp_all add: b)
  from c show "pushesOf t (spanItems (items b)) = 0"
    by (simp add: isInlineCandidate_True_iff b)
qed

lemma pushesOf_positive:
  assumes "0 < pushesOf t xs"
  shows "\<exists>i<length xs. m_type (xs ! i) = PushTag \<and> m_data (xs ! i) = t"
proof -
  from assms have "filter (\<lambda>item. m_type item = PushTag \<and> m_data item = t) xs \<noteq> []"
    by (simp add: pushesOf_def)
  then obtain x where "x \<in> set xs" "m_type x = PushTag" "m_data x = t"
    by (auto simp: filter_empty_conv)
  then show ?thesis by (auto simp: in_set_conv_nth)
qed

text \<open>
  C5. Every block of the map \<^verbatim>\<open>determineInlinableBlocks\<close> returns starts at the position
  after a definition of its tag and holds exactly the items of the stream from there
  through the unconditional jump that ends it, the first block-breaking item after the
  tag (no item before it breaks the block or defines a tag); it has at least one item and
  ends with \<^verbatim>\<open>JUMP\<close>; it overlaps no block returned for another tag; and its tag is pushed
  somewhere in the stream. The map has one entry per tag.
\<close>

theorem determineInlinableBlocks_guarantee:
  assumes "determineInlinableBlocks breaksCSEAnalysisBlock allItems = Inr blocks"
    and "map_of blocks t = Some b"
  shows "0 < spanStart (items b)
     \<and> m_type (allItems ! (spanStart (items b) - 1)) = Tag
     \<and> m_data (allItems ! (spanStart (items b) - 1)) = t
     \<and> items b = sliceItems (spanStart (items b)) (spanStart (items b) + length (spanItems (items b))) allItems
     \<and> spanStart (items b) + length (spanItems (items b)) \<le> length allItems
     \<and> 1 \<le> length (spanItems (items b))
     \<and> equalsInstruction (last (spanItems (items b))) JUMP
     \<and> breaksCSEAnalysisBlock (last (spanItems (items b))) False
     \<and> (\<forall>j. spanStart (items b) \<le> j \<and> j + 1 < spanStart (items b) + length (spanItems (items b))
            \<longrightarrow> \<not> breaksCSEAnalysisBlock (allItems ! j) False \<and> m_type (allItems ! j) \<noteq> Tag)
     \<and> (\<forall>t' b'. t' \<noteq> t \<and> map_of blocks t' = Some b'
            \<longrightarrow> spanStart (items b) + length (spanItems (items b)) \<le> spanStart (items b')
              \<or> spanStart (items b') + length (spanItems (items b')) \<le> spanStart (items b))
     \<and> (\<exists>i<length allItems. m_type (allItems ! i) = PushTag \<and> m_data (allItems ! i) = t)
     \<and> distinct (map fst blocks)"
proof -
  note e = determineInlinableBlocks_entry [OF assms]
  have sp: "blockSpansTag breaksCSEAnalysisBlock allItems t (items b)" by (rule e(1))
  have same: "items b = sliceItems (spanStart (items b))
      (spanStart (items b) + length (spanItems (items b))) allItems"
    using sp by (simp add: blockSpansTag_def sliceItems_def)
  have disj: "\<forall>t' b'. t' \<noteq> t \<and> map_of blocks t' = Some b'
      \<longrightarrow> spanStart (items b) + length (spanItems (items b)) \<le> spanStart (items b')
        \<or> spanStart (items b') + length (spanItems (items b')) \<le> spanStart (items b)"
  proof (intro allI impI)
    fix t' b' assume h: "t' \<noteq> t \<and> map_of blocks t' = Some b'"
    then have "blockSpansTag breaksCSEAnalysisBlock allItems t' (items b')"
      using determineInlinableBlocks_entry(1) [OF assms(1)] by blast
    from blockSpansTag_disjoint [OF sp this] h
    show "spanStart (items b) + length (spanItems (items b)) \<le> spanStart (items b')
        \<or> spanStart (items b') + length (spanItems (items b')) \<le> spanStart (items b)"
      by auto
  qed
  have push: "\<exists>i<length allItems. m_type (allItems ! i) = PushTag \<and> m_data (allItems ! i) = t"
    by (rule pushesOf_positive [OF e(3)])
  have d: "distinct (map fst blocks)"
    by (rule determineInlinableBlocks_distinct [OF assms(1)])
  have "spanItems (items b) \<noteq> []"
    using sp by (simp add: blockSpansTag_def)
  then have len: "1 \<le> length (spanItems (items b))"
    by (cases "spanItems (items b)") simp_all
  have inner: "\<forall>j. spanStart (items b) \<le> j \<and> j + 1 < spanStart (items b) + length (spanItems (items b))
      \<longrightarrow> \<not> breaksCSEAnalysisBlock (allItems ! j) False \<and> m_type (allItems ! j) \<noteq> Tag"
    using sp by (simp add: blockSpansTag_def)
  have rest: "0 < spanStart (items b)"
    "m_type (allItems ! (spanStart (items b) - 1)) = Tag"
    "m_data (allItems ! (spanStart (items b) - 1)) = t"
    "spanStart (items b) + length (spanItems (items b)) \<le> length allItems"
    "equalsInstruction (last (spanItems (items b))) JUMP"
    "breaksCSEAnalysisBlock (last (spanItems (items b))) False"
    using sp by (simp_all add: blockSpansTag_def)
  from rest same len inner disj push d show ?thesis
    by (intro conjI)
qed

theorem determineInlinableBlocks_guarantee_witness:
  "determineInlinableBlocks exampleBreaks exampleStream =
     Inr [(2, \<lparr>items = \<lparr>spanStart = 6,
                 spanItems = [operationItem 1, operationItem 1, jumpItem OutOfFunction]\<rparr>,
               pushTagCount = 1\<rparr>)]
   \<and> m_type (exampleStream ! 5) = Tag \<and> m_data (exampleStream ! 5) = 2
   \<and> equalsInstruction (jumpItem OutOfFunction) JUMP
   \<and> (\<exists>i<length exampleStream. m_type (exampleStream ! i) = PushTag \<and> m_data (exampleStream ! i) = 2)"
proof -
  define blk where "blk = \<lparr>items = \<lparr>spanStart = 6,
                 spanItems = [operationItem 1, operationItem 1, jumpItem OutOfFunction]\<rparr>,
               pushTagCount = 1\<rparr>"
  have a: "determineInlinableBlocks exampleBreaks exampleStream = Inr [(2, blk)]"
    unfolding blk_def by code_simp
  have b: "map_of [(2 :: u256, blk)] 2 = Some blk" by simp
  note g = determineInlinableBlocks_guarantee [OF a b]
  from g have "m_type (exampleStream ! (spanStart (items blk) - 1)) = Tag"
    and "m_data (exampleStream ! (spanStart (items blk) - 1)) = 2"
    and "equalsInstruction (last (spanItems (items blk))) JUMP"
    and "\<exists>i<length exampleStream. m_type (exampleStream ! i) = PushTag \<and> m_data (exampleStream ! i) = 2"
    by blast+
  then show ?thesis using a by (simp add: blk_def)
qed

section \<open>The rewrite engine\<close>

text \<open>
  The bookkeeping of an inlined call, as a statement about the lookups in the map; the
  three outcomes of one turn of the loop; and what every state of the loop inherits from
  the extraction: its spans, and the position of the iterator in the stream.
\<close>

lemma map_of_countInlinedPush:
  "map_of (countInlinedPush bl x) t =
     map_option (\<lambda>b. if m_type x = PushTag \<and> m_data x = t
                      then b\<lparr>pushTagCount := pushTagCount b + 1\<rparr> else b) (map_of bl t)"
  by (cases "map_of bl t") (auto simp: countInlinedPush_def update_conv' split: option.splits)

lemma pushesOf_Cons:
  "pushesOf t (x # xs) = (if m_type x = PushTag \<and> m_data x = t then 1 else 0) + pushesOf t xs"
  by (simp add: pushesOf_def)

lemma pushesOf_Nil: "pushesOf t [] = 0"
  by (simp add: pushesOf_def)

lemma map_of_foldl_countInlinedPush:
  "map_of (foldl countInlinedPush bl xs) t =
     map_option (\<lambda>b. b\<lparr>pushTagCount := pushTagCount b + of_nat (pushesOf t xs)\<rparr>) (map_of bl t)"
proof (induction xs arbitrary: bl)
  case Nil
  show ?case by (cases "map_of bl t") (simp_all add: pushesOf_Nil)
next
  case (Cons x xs)
  show ?case
    by (cases "map_of bl t")
       (simp_all add: Cons.IH map_of_countInlinedPush pushesOf_Cons add.assoc)
qed

lemma map_of_inlineBlock:
  assumes "map_of (inlinableBlocks s) L = Some B"
  shows "map_of (inlinableBlocks (inlineBlock s L B e after)) t =
     map_option (\<lambda>b. b\<lparr>pushTagCount := pushTagCount b - (if t = L then 1 else 0)
                          + of_nat (pushesOf t (spanItems (items B)))\<rparr>)
       (map_of (inlinableBlocks s) t)"
  using assms
  by (cases "map_of (inlinableBlocks s) t")
     (auto simp: inlineBlock_def map_of_foldl_countInlinedPush update_conv')

lemma shouldInline_total:
  "spanItems (items b) \<noteq> [] \<Longrightarrow> \<exists>r. shouldInline bytesRequired m_runs t j b = Inr r"
  by (simp add: shouldInline_def Let_def)

lemma optimiseStep_accept:
  assumes "remaining s = item # nextItem # after2"
    and "m_type item = PushTag" and "equalsInstruction nextItem JUMP"
    and "map_of (inlinableBlocks s) (m_data item) = Some B"
    and "shouldInline bytesRequired m_runs (m_data item) nextItem B = Inr (Some e)"
  shows "optimiseStep bytesRequired m_runs s = Inr (inlineBlock s (m_data item) B e after2)"
  using assms by (simp add: optimiseStep_def)

lemma optimiseStep_emit:
  assumes "remaining s = item # after"
    and "\<not> (\<exists>nextItem after2 B e. after = nextItem # after2 \<and> m_type item = PushTag
            \<and> equalsInstruction nextItem JUMP
            \<and> map_of (inlinableBlocks s) (m_data item) = Some B
            \<and> shouldInline bytesRequired m_runs (m_data item) nextItem B = Inr (Some e))"
    and "\<forall>t b. map_of (inlinableBlocks s) t = Some b \<longrightarrow> spanItems (items b) \<noteq> []"
  shows "optimiseStep bytesRequired m_runs s = Inr (emitItem s item after)"
proof (cases after)
  case Nil
  with assms(1) show ?thesis by (simp add: optimiseStep_def)
next
  case (Cons nextItem after2)
  show ?thesis
  proof (cases "m_type item = PushTag \<and> equalsInstruction nextItem JUMP")
    case False
    with assms(1) Cons show ?thesis by (auto simp: optimiseStep_def)
  next
    case True
    show ?thesis
    proof (cases "map_of (inlinableBlocks s) (m_data item)")
      case None
      with assms(1) Cons True show ?thesis by (simp add: optimiseStep_def)
    next
      case (Some B)
      with assms(3) have "spanItems (items B) \<noteq> []" by blast
      from shouldInline_total [OF this] obtain r
        where r: "shouldInline bytesRequired m_runs (m_data item) nextItem B = Inr r" by blast
      with assms(2) Cons True Some have "r = None" by (cases r) auto
      with r assms(1) Cons True Some show ?thesis by (simp add: optimiseStep_def)
    qed
  qed
qed

lemma optimiseStep_cases:
  assumes "remaining s = item # after"
    and "\<forall>t b. map_of (inlinableBlocks s) t = Some b \<longrightarrow> spanItems (items b) \<noteq> []"
  obtains (accept) nextItem after2 B e where "after = nextItem # after2" "m_type item = PushTag"
      "equalsInstruction nextItem JUMP" "map_of (inlinableBlocks s) (m_data item) = Some B"
      "shouldInline bytesRequired m_runs (m_data item) nextItem B = Inr (Some e)"
      "optimiseStep bytesRequired m_runs s = Inr (inlineBlock s (m_data item) B e after2)"
  | (emit) "optimiseStep bytesRequired m_runs s = Inr (emitItem s item after)"
proof (cases "\<exists>nextItem after2 B e. after = nextItem # after2 \<and> m_type item = PushTag
            \<and> equalsInstruction nextItem JUMP
            \<and> map_of (inlinableBlocks s) (m_data item) = Some B
            \<and> shouldInline bytesRequired m_runs (m_data item) nextItem B = Inr (Some e)")
  case True
  then obtain nextItem after2 B e where h: "after = nextItem # after2" "m_type item = PushTag"
      "equalsInstruction nextItem JUMP" "map_of (inlinableBlocks s) (m_data item) = Some B"
      "shouldInline bytesRequired m_runs (m_data item) nextItem B = Inr (Some e)" by blast
  from optimiseStep_accept [OF _ h(2-5)] assms(1) h(1)
  have "optimiseStep bytesRequired m_runs s = Inr (inlineBlock s (m_data item) B e after2)" by simp
  with h show ?thesis by (rule accept)
next
  case False
  from optimiseStep_emit [OF assms(1) False assms(2)] show ?thesis by (rule emit)
qed

lemma blocksAgree_refl: "blocksAgree bl bl"
  by (simp add: blocksAgree_def)

lemma blocksAgree_inlineBlock:
  assumes "blocksAgree bl (inlinableBlocks s)" and "map_of (inlinableBlocks s) L = Some B"
  shows "blocksAgree bl (inlinableBlocks (inlineBlock s L B e after))"
  unfolding blocksAgree_def
proof
  fix t
  have "map_option items (map_of (inlinableBlocks (inlineBlock s L B e after)) t)
      = map_option items (map_of (inlinableBlocks s) t)"
    by (cases "map_of (inlinableBlocks s) t") (simp_all add: map_of_inlineBlock [OF assms(2)])
  with assms(1) show "map_option items (map_of (inlinableBlocks (inlineBlock s L B e after)) t)
      = map_option items (map_of bl t)"
    by (simp add: blocksAgree_def)
qed

lemma blocksAgree_entry:
  assumes "blocksAgree bl bl'" and "map_of bl' t = Some b"
  obtains b0 where "map_of bl t = Some b0" "items b0 = items b"
proof -
  from assms(1) have "map_option items (map_of bl' t) = map_option items (map_of bl t)"
    by (simp add: blocksAgree_def)
  with assms(2) have "map_option items (map_of bl t) = Some (items b)"
    by simp
  then obtain b0 where "map_of bl t = Some b0" "items b0 = items b" by (cases "map_of bl t") auto
  then show ?thesis by (rule that)
qed

lemma blocksAgree_nonempty:
  assumes "blocksAgree bl bl'"
    and "\<forall>t b. map_of bl t = Some b \<longrightarrow> spanItems (items b) \<noteq> []"
  shows "\<forall>t b. map_of bl' t = Some b \<longrightarrow> spanItems (items b) \<noteq> []"
proof (intro allI impI)
  fix t b assume "map_of bl' t = Some b"
  from blocksAgree_entry [OF assms(1) this] obtain b0
    where "map_of bl t = Some b0" "items b0 = items b" .
  with assms(2) show "spanItems (items b) \<noteq> []" by metis
qed

lemma extracted_nonempty:
  assumes "determineInlinableBlocks br xs = Inr blocks"
  shows "\<forall>t b. map_of blocks t = Some b \<longrightarrow> spanItems (items b) \<noteq> []"
  using determineInlinableBlocks_entry(1) [OF assms]
  by (auto simp: blockSpansTag_def)

lemma drop_further:
  assumes "drop i xs = ys"
  shows "drop (i + n) xs = drop n ys"
  using assms by (metis drop_drop add.commute)

lemma reach_agree:
  assumes D: "determineInlinableBlocks br m_items = Inr blocks"
    and R: "optimiseReaches bytesRequired m_runs (initialState m_items blocks) s"
  shows "blocksAgree blocks (inlinableBlocks s)
       \<and> (\<exists>i\<le>length m_items. remaining s = drop i m_items)"
  using R
proof (induction rule: optimiseReaches.induct)
  case start
  show ?case by (auto simp: initialState_def blocksAgree_refl intro: exI [of _ 0])
next
  case (turn s s')
  then have ag: "blocksAgree blocks (inlinableBlocks s)"
    and "\<exists>i\<le>length m_items. remaining s = drop i m_items" by simp_all
  then obtain i where i: "i \<le> length m_items" "remaining s = drop i m_items" by blast
  from turn.hyps(2) obtain item after where rem: "remaining s = item # after"
    by (cases "remaining s") auto
  have ne: "\<forall>t b. map_of (inlinableBlocks s) t = Some b \<longrightarrow> spanItems (items b) \<noteq> []"
    by (rule blocksAgree_nonempty [OF ag extracted_nonempty [OF D]])
  have len: "length (remaining s) = length m_items - i" using i by simp
  from rem ne show ?case
  proof (cases rule: optimiseStep_cases [where bytesRequired = bytesRequired and m_runs = m_runs])
    case (accept nextItem after2 B e)
    with turn.hyps(3) have s': "s' = inlineBlock s (m_data item) B e after2" by simp
    have "drop i m_items = item # nextItem # after2"
      using i(2) rem accept(1) by simp
    from drop_further [OF this, of 2] have "remaining s' = drop (i + 2) m_items"
      by (simp add: s' inlineBlock_def)
    moreover have "i + 2 \<le> length m_items" using len rem accept(1) by simp
    moreover have "blocksAgree blocks (inlinableBlocks s')"
      unfolding s' by (rule blocksAgree_inlineBlock [OF ag accept(4)])
    ultimately show ?thesis by blast
  next
    case emit
    with turn.hyps(3) have s': "s' = emitItem s item after" by simp
    have "drop i m_items = item # after"
      using i(2) rem by simp
    from drop_further [OF this, of 1] have "remaining s' = drop (i + 1) m_items"
      by (simp add: s' emitItem_def)
    moreover have "i + 1 \<le> length m_items" using len rem by simp
    moreover have "blocksAgree blocks (inlinableBlocks s')"
      using ag by (simp add: s' emitItem_def)
    ultimately show ?thesis by blast
  qed
qed

lemma reach_blocks:
  assumes D: "determineInlinableBlocks br m_items = Inr blocks"
    and R: "optimiseReaches bytesRequired m_runs (initialState m_items blocks) s"
    and b: "map_of (inlinableBlocks s) t = Some b"
  shows "blockSpansTag br m_items t (items b)" and "pushesOf t (spanItems (items b)) = 0"
    and "spanItems (items b) \<noteq> []"
proof -
  from reach_agree [OF D R] have "blocksAgree blocks (inlinableBlocks s)" by simp
  from blocksAgree_entry [OF this b] obtain b0
    where b0: "map_of blocks t = Some b0" "items b0 = items b" .
  from determineInlinableBlocks_entry(1,4) [OF D b0(1)] b0(2)
  show "blockSpansTag br m_items t (items b)" and "pushesOf t (spanItems (items b)) = 0"
    by simp_all
  then show "spanItems (items b) \<noteq> []" by (simp add: blockSpansTag_def)
qed

lemma pushesOf_zero_iff:
  "pushesOf t xs = 0 \<longleftrightarrow> \<not> (\<exists>item \<in> set xs. m_type item = PushTag \<and> m_data item = t)"
  by (auto simp: pushesOf_def filter_empty_conv)

lemma step_preserves_nonempty:
  assumes ne: "\<forall>t b. map_of (inlinableBlocks s) t = Some b \<longrightarrow> spanItems (items b) \<noteq> []"
    and rem: "remaining s \<noteq> []"
  shows "\<exists>s'. optimiseStep bytesRequired m_runs s = Inr s'
      \<and> (\<forall>t b. map_of (inlinableBlocks s') t = Some b \<longrightarrow> spanItems (items b) \<noteq> [])"
proof -
  from rem obtain item after where r: "remaining s = item # after"
    by (cases "remaining s") auto
  from r ne show ?thesis
  proof (cases rule: optimiseStep_cases [where bytesRequired = bytesRequired and m_runs = m_runs])
    case (accept nextItem after2 B e)
    have "blocksAgree (inlinableBlocks s) (inlinableBlocks (inlineBlock s (m_data item) B e after2))"
      by (rule blocksAgree_inlineBlock [OF blocksAgree_refl accept(4)])
    from blocksAgree_nonempty [OF this ne] accept(6) show ?thesis by simp
  next
    case emit
    with ne show ?thesis by (simp add: emitItem_def)
  qed
qed

lemma optimiseLoop_total:
  assumes "\<forall>t b. map_of (inlinableBlocks s) t = Some b \<longrightarrow> spanItems (items b) \<noteq> []"
  shows "\<exists>s'. optimiseLoop bytesRequired m_runs s = Inr s'"
  using assms
proof (induction bytesRequired m_runs s rule: optimiseLoop.induct)
  case (1 bytesRequired m_runs s)
  show ?case
  proof (cases "remaining s = []")
    case True
    then show ?thesis by (subst optimiseLoop.simps) simp
  next
    case False
    from step_preserves_nonempty [OF "1.prems" False, of bytesRequired m_runs]
    obtain s' where s': "optimiseStep bytesRequired m_runs s = Inr s'"
      and ne': "\<forall>t b. map_of (inlinableBlocks s') t = Some b \<longrightarrow> spanItems (items b) \<noteq> []"
      by blast
    from "1.IH" [OF False s' ne'] obtain s'' where "optimiseLoop bytesRequired m_runs s' = Inr s''"
      by blast
    with False s' show ?thesis by (subst optimiseLoop.simps) simp
  qed
qed

lemma optimise_total:
  "\<exists>out. optimise br bytesRequired m_runs m_items = Inr out"
proof -
  obtain blocks where D: "determineInlinableBlocks br m_items = Inr blocks"
    using determineInlinableBlocks_total by blast
  have "\<forall>t b. map_of (inlinableBlocks \<lparr>remaining = m_items, inlinableBlocks = blocks, newItems = []\<rparr>) t = Some b
      \<longrightarrow> spanItems (items b) \<noteq> []"
    using extracted_nonempty [OF D] by simp
  from optimiseLoop_total [OF this] obtain s'
    where "optimiseLoop bytesRequired m_runs
       \<lparr>remaining = m_items, inlinableBlocks = blocks, newItems = []\<rparr> = Inr s'" by blast
  with D show ?thesis by (simp add: optimise_def)
qed

lemma optimiseLoop_no_accept:
  assumes ne: "\<forall>t b. map_of bl t = Some b \<longrightarrow> spanItems (items b) \<noteq> []"
    and no: "\<forall>i. Suc i < length xs \<longrightarrow>
       \<not> (m_type (xs ! i) = PushTag \<and> equalsInstruction (xs ! Suc i) JUMP
          \<and> (\<exists>B e. map_of bl (m_data (xs ! i)) = Some B
               \<and> shouldInline bytesRequired m_runs (m_data (xs ! i)) (xs ! Suc i) B = Inr (Some e)))"
  shows "optimiseLoop bytesRequired m_runs \<lparr>remaining = xs, inlinableBlocks = bl, newItems = acc\<rparr>
       = Inr \<lparr>remaining = [], inlinableBlocks = bl, newItems = acc @ xs\<rparr>"
  using no
proof (induction xs arbitrary: acc)
  case Nil
  show ?case by (subst optimiseLoop.simps) simp
next
  case (Cons item after)
  let ?s = "\<lparr>remaining = item # after, inlinableBlocks = bl, newItems = acc\<rparr>"
  have first: "\<not> (\<exists>nextItem after2 B e. after = nextItem # after2 \<and> m_type item = PushTag
            \<and> equalsInstruction nextItem JUMP
            \<and> map_of (inlinableBlocks ?s) (m_data item) = Some B
            \<and> shouldInline bytesRequired m_runs (m_data item) nextItem B = Inr (Some e))"
  proof
    assume "\<exists>nextItem after2 B e. after = nextItem # after2 \<and> m_type item = PushTag
            \<and> equalsInstruction nextItem JUMP
            \<and> map_of (inlinableBlocks ?s) (m_data item) = Some B
            \<and> shouldInline bytesRequired m_runs (m_data item) nextItem B = Inr (Some e)"
    then obtain nextItem after2 B e where h: "after = nextItem # after2" "m_type item = PushTag"
      "equalsInstruction nextItem JUMP" "map_of bl (m_data item) = Some B"
      "shouldInline bytesRequired m_runs (m_data item) nextItem B = Inr (Some e)" by auto
    from Cons.prems [rule_format, of 0] h show False by auto
  qed
  have step: "optimiseStep bytesRequired m_runs ?s = Inr (emitItem ?s item after)"
    by (rule optimiseStep_emit [OF _ first]) (simp_all add: ne)
  have later: "\<forall>i. Suc i < length after \<longrightarrow>
       \<not> (m_type (after ! i) = PushTag \<and> equalsInstruction (after ! Suc i) JUMP
          \<and> (\<exists>B e. map_of bl (m_data (after ! i)) = Some B
               \<and> shouldInline bytesRequired m_runs (m_data (after ! i)) (after ! Suc i) B = Inr (Some e)))"
  proof (intro allI impI)
    fix i assume "Suc i < length after"
    with Cons.prems [rule_format, of "Suc i"]
    show "\<not> (m_type (after ! i) = PushTag \<and> equalsInstruction (after ! Suc i) JUMP
          \<and> (\<exists>B e. map_of bl (m_data (after ! i)) = Some B
               \<and> shouldInline bytesRequired m_runs (m_data (after ! i)) (after ! Suc i) B = Inr (Some e)))"
      by simp
  qed
  have "optimiseLoop bytesRequired m_runs ?s
      = optimiseLoop bytesRequired m_runs \<lparr>remaining = after, inlinableBlocks = bl, newItems = acc @ [item]\<rparr>"
    by (subst optimiseLoop.simps) (simp add: step emitItem_def)
  also have "\<dots> = Inr \<lparr>remaining = [], inlinableBlocks = bl, newItems = (acc @ [item]) @ after\<rparr>"
    by (rule Cons.IH [OF later])
  finally show ?case by simp
qed

lemma last_not_PushTag:
  assumes "blockSpansTag br xs t sp"
  shows "pushesOf t' (butlast (spanItems sp)) = pushesOf t' (spanItems sp)"
proof -
  from assms have ne: "spanItems sp \<noteq> []" and j: "equalsInstruction (last (spanItems sp)) JUMP"
    by (simp_all add: blockSpansTag_def)
  from ne have "spanItems sp = butlast (spanItems sp) @ [last (spanItems sp)]" by simp
  then have "pushesOf t' (spanItems sp)
      = pushesOf t' (butlast (spanItems sp) @ [last (spanItems sp)])"
    by simp
  also have "\<dots> = pushesOf t' (butlast (spanItems sp)) + pushesOf t' [last (spanItems sp)]"
    unfolding pushesOf_def by simp
  also have "pushesOf t' [last (spanItems sp)] = 0"
    using j by (simp add: pushesOf_def equalsInstruction_def)
  finally show ?thesis by simp
qed

section \<open>Examples evaluated\<close>

lemma exampleCall_blocks:
  "determineInlinableBlocks exampleBreaks exampleCall = Inr [(2, exampleBlock)]"
  by code_simp

lemma exampleOrdinaryCall_blocks:
  "determineInlinableBlocks exampleBreaks exampleOrdinaryCall = Inr [(2, exampleBlock)]"
  by code_simp

lemma exampleSelfCall_blocks:
  "determineInlinableBlocks exampleBreaks exampleSelfCall = Inr []"
  by code_simp

lemma exampleCall_accepted:
  "shouldInline exampleBytesRequired 200 2 (jumpItem IntoFunction) exampleBlock
     = Inr (Some (jumpItem Ordinary))"
  by code_simp

lemma exampleCall_step:
  "optimiseStep exampleBytesRequired 200 (initialState exampleCall [(2, exampleBlock)])
     = Inr \<lparr>remaining = [tagItem 2, operationItem 1, jumpItem OutOfFunction],
            inlinableBlocks = [(2, exampleBlock\<lparr>pushTagCount := 0\<rparr>)],
            newItems = [operationItem 1, jumpItem Ordinary]\<rparr>"
  by code_simp

lemma exampleCall_reaches_second:
  "optimiseReaches exampleBytesRequired 200 (initialState exampleCall [(2, exampleBlock)])
     \<lparr>remaining = [tagItem 2, operationItem 1, jumpItem OutOfFunction],
      inlinableBlocks = [(2, exampleBlock\<lparr>pushTagCount := 0\<rparr>)],
      newItems = [operationItem 1, jumpItem Ordinary]\<rparr>"
proof (rule optimiseReaches.turn [OF optimiseReaches.start _ exampleCall_step])
  show "remaining (initialState exampleCall [(2, exampleBlock)]) \<noteq> []"
    by (simp add: initialState_def exampleCall_def)
qed

lemma exampleSelfCall_scanned:
  "map_of (inlinableBlockItems (scanItems exampleBreaks exampleSelfCall)) 3
     = Some \<lparr>spanStart = 3, spanItems = [pushTagItem 3, jumpItem OutOfFunction]\<rparr>"
  by code_simp

lemma exampleOrdinaryCall_no_accept:
  "\<forall>i. Suc i < length exampleOrdinaryCall \<longrightarrow>
     \<not> (m_type (exampleOrdinaryCall ! i) = PushTag
        \<and> equalsInstruction (exampleOrdinaryCall ! Suc i) JUMP
        \<and> (\<exists>B e. map_of [(2, exampleBlock)] (m_data (exampleOrdinaryCall ! i)) = Some B
             \<and> shouldInline exampleBytesRequired 200 (m_data (exampleOrdinaryCall ! i))
                  (exampleOrdinaryCall ! Suc i) B = Inr (Some e)))"
proof (intro allI impI)
  fix i assume "Suc i < length exampleOrdinaryCall"
  then have "i < 4" by (simp add: exampleOrdinaryCall_def)
  then consider "i = 0" | "i = 1" | "i = 2" | "i = 3" by linarith
  then show "\<not> (m_type (exampleOrdinaryCall ! i) = PushTag
        \<and> equalsInstruction (exampleOrdinaryCall ! Suc i) JUMP
        \<and> (\<exists>B e. map_of [(2, exampleBlock)] (m_data (exampleOrdinaryCall ! i)) = Some B
             \<and> shouldInline exampleBytesRequired 200 (m_data (exampleOrdinaryCall ! i))
                  (exampleOrdinaryCall ! Suc i) B = Inr (Some e)))"
  proof cases
    case 1
    then show ?thesis
      by (simp add: exampleOrdinaryCall_def pushTagItem_def jumpItem_def shouldInline_def
          getJumpType_def exampleBlock_def Let_def)
  next
    case 2
    then show ?thesis by (simp add: exampleOrdinaryCall_def jumpItem_def)
  next
    case 3
    then show ?thesis by (simp add: exampleOrdinaryCall_def tagItem_def)
  next
    case 4
    then show ?thesis by (simp add: exampleOrdinaryCall_def operationItem_def)
  qed
qed

lemma single_operation_blocks:
  "determineInlinableBlocks exampleBreaks [operationItem 1] = Inr []"
  by code_simp

section \<open>The claims about the rewrite engine\<close>

text \<open>
  C2. At every scan position of \<^verbatim>\<open>optimise\<close> (the remaining items are the stream from some
  position \<open>i\<close> on): if the item is a push of a tag, the next item the unconditional jump,
  the tag has a block \<open>B\<close> in the candidate map and \<^verbatim>\<open>shouldInline\<close> accepts, then the
  output receives the items of \<open>B\<close> but the last and then the rewritten exit jump, the scan
  continues two items further, the count of \<open>B\<close> is one less, and the count of every other
  candidate is increased by the number of items of the copied body that push its tag;
  otherwise the item is appended to the output unchanged and the scan continues one item
  further, the map as it was. Counts are 64-bit values.
\<close>

theorem optimiseStep_at_every_position:
  assumes "determineInlinableBlocks breaksCSEAnalysisBlock m_items = Inr blocks"
    and "optimiseReaches bytesRequired m_runs (initialState m_items blocks) s"
    and "remaining s = item # after"
  shows "(\<exists>i<length m_items. remaining s = drop i m_items)
     \<and> (\<forall>nextItem after2 B exitJump.
           after = nextItem # after2 \<and> m_type item = PushTag \<and> equalsInstruction nextItem JUMP
           \<and> map_of (inlinableBlocks s) (m_data item) = Some B
           \<and> shouldInline bytesRequired m_runs (m_data item) nextItem B = Inr (Some exitJump)
         \<longrightarrow> (\<exists>s'. optimiseStep bytesRequired m_runs s = Inr s'
               \<and> newItems s' = newItems s @ butlast (spanItems (items B)) @ [exitJump]
               \<and> remaining s' = after2
               \<and> map_of (inlinableBlocks s') (m_data item) = Some (B\<lparr>pushTagCount := pushTagCount B - 1\<rparr>)
               \<and> (\<forall>t. t \<noteq> m_data item \<longrightarrow>
                     map_of (inlinableBlocks s') t =
                       map_option (\<lambda>b. b\<lparr>pushTagCount := pushTagCount b
                                           + of_nat (pushesOf t (butlast (spanItems (items B))))\<rparr>)
                         (map_of (inlinableBlocks s) t))))
     \<and> (\<not> (\<exists>nextItem after2 B exitJump.
             after = nextItem # after2 \<and> m_type item = PushTag \<and> equalsInstruction nextItem JUMP
             \<and> map_of (inlinableBlocks s) (m_data item) = Some B
             \<and> shouldInline bytesRequired m_runs (m_data item) nextItem B = Inr (Some exitJump))
         \<longrightarrow> optimiseStep bytesRequired m_runs s
               = Inr (s\<lparr>remaining := after, newItems := newItems s @ [item]\<rparr>))"
proof (intro conjI allI impI)
  from reach_agree [OF assms(1,2)] obtain i
    where i: "i \<le> length m_items" "remaining s = drop i m_items" by blast
  with assms(3) have "i < length m_items" by (cases "i = length m_items") auto
  with i(2) show "\<exists>i<length m_items. remaining s = drop i m_items" by blast
next
  fix nextItem after2 B exitJump
  assume h: "after = nextItem # after2 \<and> m_type item = PushTag \<and> equalsInstruction nextItem JUMP
           \<and> map_of (inlinableBlocks s) (m_data item) = Some B
           \<and> shouldInline bytesRequired m_runs (m_data item) nextItem B = Inr (Some exitJump)"
  then have B: "map_of (inlinableBlocks s) (m_data item) = Some B"
    and h1: "remaining s = item # nextItem # after2" and h2: "m_type item = PushTag"
    and h3: "equalsInstruction nextItem JUMP"
    and h4: "shouldInline bytesRequired m_runs (m_data item) nextItem B = Inr (Some exitJump)"
    using assms(3) by simp_all
  let ?s' = "inlineBlock s (m_data item) B exitJump after2"
  have step: "optimiseStep bytesRequired m_runs s = Inr ?s'"
    by (rule optimiseStep_accept [OF h1 h2 h3 B h4])
  note rb = reach_blocks [OF assms(1,2) B]
  have bl: "pushesOf t (butlast (spanItems (items B))) = pushesOf t (spanItems (items B))" for t
    by (rule last_not_PushTag [OF rb(1)])
  have own: "map_of (inlinableBlocks ?s') (m_data item) = Some (B\<lparr>pushTagCount := pushTagCount B - 1\<rparr>)"
    by (simp add: map_of_inlineBlock [OF B] B rb(2))
  have others: "\<forall>t. t \<noteq> m_data item \<longrightarrow>
      map_of (inlinableBlocks ?s') t =
        map_option (\<lambda>b. b\<lparr>pushTagCount := pushTagCount b
                            + of_nat (pushesOf t (butlast (spanItems (items B))))\<rparr>)
          (map_of (inlinableBlocks s) t)"
    by (simp add: map_of_inlineBlock [OF B] bl)
  have out: "newItems ?s' = newItems s @ butlast (spanItems (items B)) @ [exitJump]"
    and rem: "remaining ?s' = after2"
    by (simp_all add: inlineBlock_def)
  show "\<exists>s'. optimiseStep bytesRequired m_runs s = Inr s'
               \<and> newItems s' = newItems s @ butlast (spanItems (items B)) @ [exitJump]
               \<and> remaining s' = after2
               \<and> map_of (inlinableBlocks s') (m_data item) = Some (B\<lparr>pushTagCount := pushTagCount B - 1\<rparr>)
               \<and> (\<forall>t. t \<noteq> m_data item \<longrightarrow>
                     map_of (inlinableBlocks s') t =
                       map_option (\<lambda>b. b\<lparr>pushTagCount := pushTagCount b
                                           + of_nat (pushesOf t (butlast (spanItems (items B))))\<rparr>)
                         (map_of (inlinableBlocks s) t))"
    by (rule exI [of _ ?s']) (intro conjI step out rem own others)
next
  assume no: "\<not> (\<exists>nextItem after2 B exitJump.
             after = nextItem # after2 \<and> m_type item = PushTag \<and> equalsInstruction nextItem JUMP
             \<and> map_of (inlinableBlocks s) (m_data item) = Some B
             \<and> shouldInline bytesRequired m_runs (m_data item) nextItem B = Inr (Some exitJump))"
  have ne: "\<forall>t b. map_of (inlinableBlocks s) t = Some b \<longrightarrow> spanItems (items b) \<noteq> []"
    using reach_blocks(3) [OF assms(1,2)] by blast
  from optimiseStep_emit [OF assms(3) no ne]
  show "optimiseStep bytesRequired m_runs s
               = Inr (s\<lparr>remaining := after, newItems := newItems s @ [item]\<rparr>)"
    by (simp add: emitItem_def)
qed

theorem optimiseStep_at_every_position_witness:
  "determineInlinableBlocks exampleBreaks exampleCall = Inr [(2, exampleBlock)]
   \<and> (\<exists>s'. optimiseStep exampleBytesRequired 200 (initialState exampleCall [(2, exampleBlock)]) = Inr s'
         \<and> newItems s' = [operationItem 1, jumpItem Ordinary]
         \<and> remaining s' = [tagItem 2, operationItem 1, jumpItem OutOfFunction]
         \<and> map_of (inlinableBlocks s') 2 = Some (exampleBlock\<lparr>pushTagCount := 0\<rparr>))
   \<and> optimiseStep exampleBytesRequired 200
        \<lparr>remaining = [tagItem 2, operationItem 1, jumpItem OutOfFunction],
         inlinableBlocks = [(2, exampleBlock\<lparr>pushTagCount := 0\<rparr>)],
         newItems = [operationItem 1, jumpItem Ordinary]\<rparr>
      = Inr \<lparr>remaining = [operationItem 1, jumpItem OutOfFunction],
             inlinableBlocks = [(2, exampleBlock\<lparr>pushTagCount := 0\<rparr>)],
             newItems = [operationItem 1, jumpItem Ordinary, tagItem 2]\<rparr>"
proof -
  let ?s0 = "initialState exampleCall [(2, exampleBlock)]"
  let ?s1 = "\<lparr>remaining = [tagItem 2, operationItem 1, jumpItem OutOfFunction],
         inlinableBlocks = [(2, exampleBlock\<lparr>pushTagCount := 0\<rparr>)],
         newItems = [operationItem 1, jumpItem Ordinary]\<rparr>"
  have rem0: "remaining ?s0 = pushTagItem 2 # [jumpItem IntoFunction, tagItem 2, operationItem 1, jumpItem OutOfFunction]"
    by (simp add: initialState_def exampleCall_def)
  note t0 = optimiseStep_at_every_position [OF exampleCall_blocks optimiseReaches.start rem0]
  have h: "[jumpItem IntoFunction, tagItem 2, operationItem 1, jumpItem OutOfFunction]
        = jumpItem IntoFunction # [tagItem 2, operationItem 1, jumpItem OutOfFunction]
      \<and> m_type (pushTagItem 2) = PushTag \<and> equalsInstruction (jumpItem IntoFunction) JUMP
      \<and> map_of (inlinableBlocks ?s0) (m_data (pushTagItem 2)) = Some exampleBlock
      \<and> shouldInline exampleBytesRequired 200 (m_data (pushTagItem 2)) (jumpItem IntoFunction) exampleBlock
           = Inr (Some (jumpItem Ordinary))"
    using exampleCall_accepted
    by (simp add: initialState_def pushTagItem_def equalsInstruction_def jumpItem_def)
  from t0 h have "\<exists>s'. optimiseStep exampleBytesRequired 200 ?s0 = Inr s'
      \<and> newItems s' = newItems ?s0 @ butlast (spanItems (items exampleBlock)) @ [jumpItem Ordinary]
      \<and> remaining s' = [tagItem 2, operationItem 1, jumpItem OutOfFunction]
      \<and> map_of (inlinableBlocks s') (m_data (pushTagItem 2))
          = Some (exampleBlock\<lparr>pushTagCount := pushTagCount exampleBlock - 1\<rparr>)"
    by blast
  then have first: "\<exists>s'. optimiseStep exampleBytesRequired 200 ?s0 = Inr s'
         \<and> newItems s' = [operationItem 1, jumpItem Ordinary]
         \<and> remaining s' = [tagItem 2, operationItem 1, jumpItem OutOfFunction]
         \<and> map_of (inlinableBlocks s') 2 = Some (exampleBlock\<lparr>pushTagCount := 0\<rparr>)"
    by (simp add: initialState_def exampleBlock_def pushTagItem_def)
  have rem1: "remaining ?s1 = tagItem 2 # [operationItem 1, jumpItem OutOfFunction]" by simp
  note t1 = optimiseStep_at_every_position [OF exampleCall_blocks exampleCall_reaches_second rem1]
  have no: "\<not> (\<exists>nextItem after2 B exitJump.
             [operationItem 1, jumpItem OutOfFunction] = nextItem # after2
             \<and> m_type (tagItem 2) = PushTag \<and> equalsInstruction nextItem JUMP
             \<and> map_of (inlinableBlocks ?s1) (m_data (tagItem 2)) = Some B
             \<and> shouldInline exampleBytesRequired 200 (m_data (tagItem 2)) nextItem B = Inr (Some exitJump))"
    by (simp add: tagItem_def)
  from t1 no have "optimiseStep exampleBytesRequired 200 ?s1
      = Inr (?s1\<lparr>remaining := [operationItem 1, jumpItem OutOfFunction],
                 newItems := newItems ?s1 @ [tagItem 2]\<rparr>)"
    by blast
  then have second: "optimiseStep exampleBytesRequired 200 ?s1
      = Inr \<lparr>remaining = [operationItem 1, jumpItem OutOfFunction],
             inlinableBlocks = [(2, exampleBlock\<lparr>pushTagCount := 0\<rparr>)],
             newItems = [operationItem 1, jumpItem Ordinary, tagItem 2]\<rparr>"
    by simp
  from exampleCall_blocks first second show ?thesis by (intro conjI)
qed


text \<open>
  C4. A block that holds a push of its own tag is rejected by \<^verbatim>\<open>isInlineCandidate\<close>; the
  block the scan stored for a tag is left out of the map \<^verbatim>\<open>determineInlinableBlocks\<close>
  returns when it pushes that tag, so no block of the returned map pushes its own tag; and
  in every state of the loop of \<^verbatim>\<open>optimise\<close> the block looked up for a tag, the one a call
  site of the tag would be replaced with, does not push that tag.
\<close>

theorem self_referencing_block_never_inlined:
  "((\<exists>item \<in> set (spanItems (items block)). m_type item = PushTag \<and> m_data item = tag)
      \<longrightarrow> isInlineCandidate tag block = Inr False)
   \<and> (determineInlinableBlocks breaksCSEAnalysisBlock m_items = Inr blocks \<longrightarrow>
        (\<forall>L sp. map_of (inlinableBlockItems (scanItems breaksCSEAnalysisBlock m_items)) L = Some sp
             \<and> (\<exists>item \<in> set (spanItems sp). m_type item = PushTag \<and> m_data item = L)
           \<longrightarrow> map_of blocks L = None)
      \<and> (\<forall>L b. map_of blocks L = Some b
           \<longrightarrow> \<not> (\<exists>item \<in> set (spanItems (items b)). m_type item = PushTag \<and> m_data item = L))
      \<and> (\<forall>s L b. optimiseReaches bytesRequired m_runs (initialState m_items blocks) s
             \<and> map_of (inlinableBlocks s) L = Some b
           \<longrightarrow> \<not> (\<exists>item \<in> set (spanItems (items b)). m_type item = PushTag \<and> m_data item = L)))"
proof (intro conjI impI allI)
  assume "\<exists>item \<in> set (spanItems (items block)). m_type item = PushTag \<and> m_data item = tag"
  then show "isInlineCandidate tag block = Inr False"
    by (auto simp: isInlineCandidate_def)
next
  fix L sp
  assume D: "determineInlinableBlocks breaksCSEAnalysisBlock m_items = Inr blocks"
    and h: "map_of (inlinableBlockItems (scanItems breaksCSEAnalysisBlock m_items)) L = Some sp
         \<and> (\<exists>item \<in> set (spanItems sp). m_type item = PushTag \<and> m_data item = L)"
  let ?st = "scanItems breaksCSEAnalysisBlock m_items"
  have f: "filterCandidates (inlinableBlockItems ?st) (numPushTags ?st) = Inr blocks"
    using D by (simp add: determineInlinableBlocks_def Let_def)
  have d: "distinct (map fst (inlinableBlockItems ?st))"
    by (simp add: scanItems_scanPrefix distinct_scanPrefix)
  from h have "\<And>n. isInlineCandidate L \<lparr>items = sp, pushTagCount = n\<rparr> \<noteq> Inr True"
    by (auto simp: isInlineCandidate_def)
  with h show "map_of blocks L = None"
    by (simp add: filterCandidates_map_of [OF d f] split: option.splits)
next
  fix L b
  assume D: "determineInlinableBlocks breaksCSEAnalysisBlock m_items = Inr blocks"
    and b: "map_of blocks L = Some b"
  from determineInlinableBlocks_entry(4) [OF D b]
  show "\<not> (\<exists>item \<in> set (spanItems (items b)). m_type item = PushTag \<and> m_data item = L)"
    by (simp add: pushesOf_zero_iff)
next
  fix s L b
  assume D: "determineInlinableBlocks breaksCSEAnalysisBlock m_items = Inr blocks"
    and h: "optimiseReaches bytesRequired m_runs (initialState m_items blocks) s
         \<and> map_of (inlinableBlocks s) L = Some b"
  from h reach_blocks(2) [OF D, of bytesRequired m_runs s L b]
  show "\<not> (\<exists>item \<in> set (spanItems (items b)). m_type item = PushTag \<and> m_data item = L)"
    by (simp add: pushesOf_zero_iff)
qed

theorem self_referencing_block_never_inlined_witness:
  "isInlineCandidate 3
     \<lparr>items = \<lparr>spanStart = 3, spanItems = [pushTagItem 3, jumpItem OutOfFunction]\<rparr>,
      pushTagCount = 2\<rparr> = Inr False
   \<and> determineInlinableBlocks exampleBreaks exampleSelfCall = Inr []
   \<and> map_of ([] :: InlinableBlock tagMap) 3 = None
   \<and> determineInlinableBlocks exampleBreaks exampleCall = Inr [(2, exampleBlock)]
   \<and> \<not> (\<exists>item \<in> set (spanItems (items exampleBlock)). m_type item = PushTag \<and> m_data item = 2)"
proof -
  let ?self = "\<lparr>items = \<lparr>spanStart = 3, spanItems = [pushTagItem 3, jumpItem OutOfFunction]\<rparr>,
      pushTagCount = 2\<rparr>"
  let ?s0 = "initialState exampleCall [(2, exampleBlock)]"
  have p: "\<exists>item \<in> set (spanItems (items ?self)). m_type item = PushTag \<and> m_data item = 3"
    by (simp add: pushTagItem_def)
  from self_referencing_block_never_inlined [where block = ?self and tag = 3] p
  have a: "isInlineCandidate 3 ?self = Inr False" by blast
  have q: "map_of (inlinableBlockItems (scanItems exampleBreaks exampleSelfCall)) 3
        = Some \<lparr>spanStart = 3, spanItems = [pushTagItem 3, jumpItem OutOfFunction]\<rparr>
      \<and> (\<exists>item \<in> set (spanItems \<lparr>spanStart = 3, spanItems = [pushTagItem 3, jumpItem OutOfFunction]\<rparr>).
            m_type item = PushTag \<and> m_data item = 3)"
    using exampleSelfCall_scanned by (simp add: pushTagItem_def)
  from self_referencing_block_never_inlined
         [where breaksCSEAnalysisBlock = exampleBreaks and m_items = exampleSelfCall and blocks = "[]"]
       exampleSelfCall_blocks q
  have b: "map_of ([] :: InlinableBlock tagMap) 3 = None" by blast
  have r: "optimiseReaches exampleBytesRequired 200 ?s0 ?s0
      \<and> map_of (inlinableBlocks ?s0) 2 = Some exampleBlock"
    by (simp add: optimiseReaches.start initialState_def)
  from self_referencing_block_never_inlined
         [where breaksCSEAnalysisBlock = exampleBreaks and m_items = exampleCall
            and blocks = "[(2, exampleBlock)]" and bytesRequired = exampleBytesRequired and m_runs = 200]
       exampleCall_blocks r
  have c: "\<not> (\<exists>item \<in> set (spanItems (items exampleBlock)). m_type item = PushTag \<and> m_data item = 2)"
    by blast
  from a exampleSelfCall_blocks b exampleCall_blocks c show ?thesis by (intro conjI)
qed

text \<open>
  C7, as the code has it. \<^verbatim>\<open>isInlineCandidate\<close> throws \<^verbatim>\<open>OptimizerException\<close> for an
  empty block and returns nothing. \<^verbatim>\<open>shouldInline\<close> has no check of its own: it returns
  a result for every block that is not empty, and every block \<^verbatim>\<open>optimise\<close> can pass to it
  (a block of the candidate map in a state of its loop) is not empty.
\<close>

theorem empty_block_is_asserted_by_the_filter:
  "(spanItems (items block) = [] \<longrightarrow> isInlineCandidate tag block = Inl OptimizerException)
   \<and> (spanItems (items block) \<noteq> []
        \<longrightarrow> (\<exists>r. shouldInline bytesRequired m_runs tag jump block = Inr r))
   \<and> (determineInlinableBlocks breaksCSEAnalysisBlock m_items = Inr blocks
        \<and> optimiseReaches bytesRequired m_runs (initialState m_items blocks) s
        \<and> map_of (inlinableBlocks s) t = Some b
      \<longrightarrow> spanItems (items b) \<noteq> [])"
proof (intro conjI impI)
  assume "spanItems (items block) = []"
  then show "isInlineCandidate tag block = Inl OptimizerException"
    by (simp add: isInlineCandidate_def)
next
  assume "spanItems (items block) \<noteq> []"
  then show "\<exists>r. shouldInline bytesRequired m_runs tag jump block = Inr r"
    by (rule shouldInline_total)
next
  assume "determineInlinableBlocks breaksCSEAnalysisBlock m_items = Inr blocks
        \<and> optimiseReaches bytesRequired m_runs (initialState m_items blocks) s
        \<and> map_of (inlinableBlocks s) t = Some b"
  then show "spanItems (items b) \<noteq> []"
    using reach_blocks(3) by blast
qed

theorem empty_block_is_asserted_by_the_filter_witness:
  "isInlineCandidate 7 \<lparr>items = \<lparr>spanStart = 0, spanItems = []\<rparr>, pushTagCount = 1\<rparr>
     = Inl OptimizerException
   \<and> (\<exists>r. shouldInline exampleBytesRequired 200 2 (jumpItem IntoFunction) exampleBlock = Inr r)
   \<and> determineInlinableBlocks exampleBreaks exampleCall = Inr [(2, exampleBlock)]
   \<and> spanItems (items exampleBlock) \<noteq> []"
proof -
  let ?empty = "\<lparr>items = \<lparr>spanStart = 0, spanItems = []\<rparr>, pushTagCount = 1\<rparr>"
  let ?s0 = "initialState exampleCall [(2, exampleBlock)]"
  have e: "spanItems (items ?empty) = []" by simp
  from empty_block_is_asserted_by_the_filter [where block = ?empty and tag = 7] e
  have a: "isInlineCandidate 7 ?empty = Inl OptimizerException" by blast
  have n: "spanItems (items exampleBlock) \<noteq> []" by (simp add: exampleBlock_def)
  from empty_block_is_asserted_by_the_filter
         [where block = exampleBlock and bytesRequired = exampleBytesRequired and m_runs = 200
            and tag = 2 and jump = "jumpItem IntoFunction"] n
  have b: "\<exists>r. shouldInline exampleBytesRequired 200 2 (jumpItem IntoFunction) exampleBlock = Inr r"
    by blast
  have r: "determineInlinableBlocks exampleBreaks exampleCall = Inr [(2, exampleBlock)]
      \<and> optimiseReaches exampleBytesRequired 200 ?s0 ?s0
      \<and> map_of (inlinableBlocks ?s0) 2 = Some exampleBlock"
    by (simp add: exampleCall_blocks optimiseReaches.start initialState_def)
  from empty_block_is_asserted_by_the_filter
         [where breaksCSEAnalysisBlock = exampleBreaks and m_items = exampleCall
            and blocks = "[(2, exampleBlock)]" and bytesRequired = exampleBytesRequired and m_runs = 200
            and s = ?s0 and t = 2 and b = exampleBlock] r
  have c: "spanItems (items exampleBlock) \<noteq> []" by blast
  from a b exampleCall_blocks c show ?thesis by (intro conjI)
qed

text \<open>
  C7 as stated fails for \<^verbatim>\<open>shouldInline\<close>: called with an empty block it reads
  \<^verbatim>\<open>back()\<close> of an empty span, which is undefined and no \<^verbatim>\<open>OptimizerException\<close>.
\<close>

theorem shouldInline_empty_block_not_asserted:
  "shouldInline exampleBytesRequired 1 7 (jumpItem IntoFunction)
     \<lparr>items = \<lparr>spanStart = 0, spanItems = []\<rparr>, pushTagCount = 1\<rparr> = Inl UndefinedBehaviour
   \<and> shouldInline exampleBytesRequired 1 7 (jumpItem IntoFunction)
     \<lparr>items = \<lparr>spanStart = 0, spanItems = []\<rparr>, pushTagCount = 1\<rparr> \<noteq> Inl OptimizerException"
  by (simp add: shouldInline_def)

text \<open>
  C8. \<^verbatim>\<open>optimise\<close> returns a stream for every input. When no push of a tag followed by
  the unconditional jump is accepted by \<^verbatim>\<open>shouldInline\<close> with the block of its tag, and in
  particular when the candidate map is empty, the stream it returns is the input.
\<close>

theorem optimise_accepts_every_stream:
  "(\<exists>out. optimise breaksCSEAnalysisBlock bytesRequired m_runs m_items = Inr out)
   \<and> (determineInlinableBlocks breaksCSEAnalysisBlock m_items = Inr blocks
        \<and> (\<forall>i. Suc i < length m_items \<longrightarrow>
              \<not> (m_type (m_items ! i) = PushTag \<and> equalsInstruction (m_items ! Suc i) JUMP
                 \<and> (\<exists>B e. map_of blocks (m_data (m_items ! i)) = Some B
                      \<and> shouldInline bytesRequired m_runs (m_data (m_items ! i)) (m_items ! Suc i) B
                          = Inr (Some e))))
      \<longrightarrow> optimise breaksCSEAnalysisBlock bytesRequired m_runs m_items = Inr m_items)
   \<and> (determineInlinableBlocks breaksCSEAnalysisBlock m_items = Inr []
      \<longrightarrow> optimise breaksCSEAnalysisBlock bytesRequired m_runs m_items = Inr m_items)"
proof (intro conjI impI)
  show "\<exists>out. optimise breaksCSEAnalysisBlock bytesRequired m_runs m_items = Inr out"
    by (rule optimise_total)
next
  assume h: "determineInlinableBlocks breaksCSEAnalysisBlock m_items = Inr blocks
        \<and> (\<forall>i. Suc i < length m_items \<longrightarrow>
              \<not> (m_type (m_items ! i) = PushTag \<and> equalsInstruction (m_items ! Suc i) JUMP
                 \<and> (\<exists>B e. map_of blocks (m_data (m_items ! i)) = Some B
                      \<and> shouldInline bytesRequired m_runs (m_data (m_items ! i)) (m_items ! Suc i) B
                          = Inr (Some e))))"
  then have D: "determineInlinableBlocks breaksCSEAnalysisBlock m_items = Inr blocks" by simp
  from h optimiseLoop_no_accept [OF extracted_nonempty [OF D], of m_items bytesRequired m_runs "[]"]
  have "optimiseLoop bytesRequired m_runs \<lparr>remaining = m_items, inlinableBlocks = blocks, newItems = []\<rparr>
       = Inr \<lparr>remaining = [], inlinableBlocks = blocks, newItems = m_items\<rparr>" by simp
  with D show "optimise breaksCSEAnalysisBlock bytesRequired m_runs m_items = Inr m_items"
    by (simp add: optimise_def)
next
  assume "determineInlinableBlocks breaksCSEAnalysisBlock m_items = Inr []"
  then show "optimise breaksCSEAnalysisBlock bytesRequired m_runs m_items = Inr m_items"
    by (simp add: optimise_def)
qed

theorem optimise_accepts_every_stream_witness:
  "(\<exists>out. optimise exampleBreaks exampleBytesRequired 200 exampleCall = Inr out)
   \<and> determineInlinableBlocks exampleBreaks exampleOrdinaryCall = Inr [(2, exampleBlock)]
   \<and> optimise exampleBreaks exampleBytesRequired 200 exampleOrdinaryCall = Inr exampleOrdinaryCall
   \<and> determineInlinableBlocks exampleBreaks [operationItem 1] = Inr []
   \<and> optimise exampleBreaks exampleBytesRequired 200 [operationItem 1] = Inr [operationItem 1]"
proof -
  from optimise_accepts_every_stream
         [where breaksCSEAnalysisBlock = exampleBreaks and bytesRequired = exampleBytesRequired
            and m_runs = 200 and m_items = exampleCall]
  have a: "\<exists>out. optimise exampleBreaks exampleBytesRequired 200 exampleCall = Inr out"
    by blast
  from optimise_accepts_every_stream
         [where breaksCSEAnalysisBlock = exampleBreaks and bytesRequired = exampleBytesRequired
            and m_runs = 200 and m_items = exampleOrdinaryCall and blocks = "[(2, exampleBlock)]"]
       exampleOrdinaryCall_blocks exampleOrdinaryCall_no_accept
  have b: "optimise exampleBreaks exampleBytesRequired 200 exampleOrdinaryCall = Inr exampleOrdinaryCall"
    by blast
  from optimise_accepts_every_stream
         [where breaksCSEAnalysisBlock = exampleBreaks and bytesRequired = exampleBytesRequired
            and m_runs = 200 and m_items = "[operationItem 1]"]
       single_operation_blocks
  have c: "optimise exampleBreaks exampleBytesRequired 200 [operationItem 1] = Inr [operationItem 1]"
    by blast
  from a exampleOrdinaryCall_blocks b single_operation_blocks c show ?thesis by (intro conjI)
qed

section \<open>The call-site counts\<close>

text \<open>
  The counts start as the numbers of pushes in the stream. A turn that appends the item it
  reads moves one item from the stream to the output; a turn that inlines a call drops one
  push of the tag and copies the pushes of the body. So in every state of the loop the count
  of a tag is the number of pushes of the tag in the output and in the items still to be
  scanned, taken modulo \<open>2 ^ 64\<close>.
\<close>

lemma pushesOf_append: "pushesOf t (xs @ ys) = pushesOf t xs + pushesOf t ys"
  by (simp add: pushesOf_def)

lemma pushesOf_le_length: "pushesOf t xs \<le> length xs"
  by (simp add: pushesOf_def)

lemma shouldInline_exitJump:
  assumes "shouldInline bytesRequired m_runs t j b = Inr (Some e)"
  shows "e = (last (spanItems (items b)))\<lparr>m_jumpType := Ordinary\<rparr>"
  using assms by (auto simp: shouldInline_def Let_def setJumpType_def split: if_splits)

lemma countsTrackPushes_initial:
  assumes D: "determineInlinableBlocks br m_items = Inr blocks"
  shows "countsTrackPushes (initialState m_items blocks)"
  unfolding countsTrackPushes_def
proof (intro allI impI)
  fix t b assume "map_of (inlinableBlocks (initialState m_items blocks)) t = Some b"
  then have b: "map_of blocks t = Some b" by (simp add: initialState_def)
  from determineInlinableBlocks_entry(2) [OF D b]
  show "pushTagCount b = of_nat (pushesOf t (newItems (initialState m_items blocks))
      + pushesOf t (remaining (initialState m_items blocks)))"
    by (simp add: initialState_def pushesOf_Nil)
qed

lemma countsTrackPushes_step:
  assumes D: "determineInlinableBlocks br m_items = Inr blocks"
    and R: "optimiseReaches bytesRequired m_runs (initialState m_items blocks) s"
    and ct: "countsTrackPushes s"
    and rem: "remaining s \<noteq> []"
    and step: "optimiseStep bytesRequired m_runs s = Inr s'"
  shows "countsTrackPushes s'"
proof -
  from rem obtain item after where r: "remaining s = item # after"
    by (cases "remaining s") auto
  have ne: "\<forall>t b. map_of (inlinableBlocks s) t = Some b \<longrightarrow> spanItems (items b) \<noteq> []"
    using reach_blocks(3) [OF D R] by blast
  from r ne show ?thesis
  proof (cases rule: optimiseStep_cases [where bytesRequired = bytesRequired and m_runs = m_runs])
    case emit
    with step have s': "s' = emitItem s item after" by simp
    show ?thesis
      unfolding countsTrackPushes_def
    proof (intro allI impI)
      fix t b assume "map_of (inlinableBlocks s') t = Some b"
      then have "map_of (inlinableBlocks s) t = Some b" by (simp add: s' emitItem_def)
      with ct have "pushTagCount b = of_nat (pushesOf t (newItems s) + pushesOf t (remaining s))"
        by (simp add: countsTrackPushes_def)
      moreover have "pushesOf t (newItems s') + pushesOf t (remaining s')
          = pushesOf t (newItems s) + pushesOf t (remaining s)"
        by (simp add: s' emitItem_def r pushesOf_append pushesOf_Cons pushesOf_Nil)
      ultimately show "pushTagCount b = of_nat (pushesOf t (newItems s') + pushesOf t (remaining s'))"
        by simp
    qed
  next
    case (accept nextItem after2 B e)
    with step have s': "s' = inlineBlock s (m_data item) B e after2" by simp
    have r2: "remaining s = item # nextItem # after2" using r accept(1) by simp
    note rb = reach_blocks [OF D R accept(4)]
    have notpush: "m_type nextItem \<noteq> PushTag"
      using accept(3) by (simp add: equalsInstruction_def)
    have e: "e = (last (spanItems (items B)))\<lparr>m_jumpType := Ordinary\<rparr>"
      by (rule shouldInline_exitJump [OF accept(5)])
    have "m_type e \<noteq> PushTag"
      using rb(1) by (simp add: e blockSpansTag_def equalsInstruction_def)
    then have pe: "pushesOf t [e] = 0" for t
      by (simp add: pushesOf_Cons pushesOf_Nil)
    have new: "pushesOf t (newItems s')
        = pushesOf t (newItems s) + pushesOf t (spanItems (items B))" for t
      by (simp add: s' inlineBlock_def pushesOf_append pe last_not_PushTag [OF rb(1)])
    have old: "pushesOf t (remaining s)
        = (if t = m_data item then 1 else 0) + pushesOf t (remaining s')" for t
      using accept(2) notpush by (auto simp: s' inlineBlock_def r2 pushesOf_Cons)
    show ?thesis
      unfolding countsTrackPushes_def
    proof (intro allI impI)
      fix t b' assume b': "map_of (inlinableBlocks s') t = Some b'"
      then obtain b where b: "map_of (inlinableBlocks s) t = Some b"
        and eq: "b' = b\<lparr>pushTagCount := pushTagCount b - (if t = m_data item then 1 else 0)
                          + of_nat (pushesOf t (spanItems (items B)))\<rparr>"
        by (cases "map_of (inlinableBlocks s) t")
           (simp_all add: s' map_of_inlineBlock [OF accept(4)])
      from ct b have c: "pushTagCount b = of_nat (pushesOf t (newItems s) + pushesOf t (remaining s))"
        by (simp add: countsTrackPushes_def)
      show "pushTagCount b' = of_nat (pushesOf t (newItems s') + pushesOf t (remaining s'))"
        unfolding eq new [of t] by (simp add: c old [of t])
    qed
  qed
qed

lemma reach_countsTrackPushes:
  assumes D: "determineInlinableBlocks br m_items = Inr blocks"
    and R: "optimiseReaches bytesRequired m_runs (initialState m_items blocks) s"
  shows "countsTrackPushes s"
  using R
proof (induction rule: optimiseReaches.induct)
  case start
  show ?case by (rule countsTrackPushes_initial [OF D])
next
  case (turn s s')
  show ?case
    by (rule countsTrackPushes_step [OF D turn.hyps(1) turn.IH turn.hyps(2,3)])
qed

lemma unat_of_nat_small:
  assumes "n < 2 ^ 64"
  shows "unat (of_nat n :: uint64_t) = n"
  using assms by (simp add: unat_of_nat)

lemma unat_pred:
  assumes "1 \<le> unat (c :: uint64_t)"
  shows "unat (c - 1) = unat c - 1"
proof -
  from assms have "c \<noteq> 0" by auto
  then show ?thesis by (rule unat_minus_one)
qed

text \<open>
  C6. In every state of the loop of \<^verbatim>\<open>optimise\<close> the count of every candidate is the number
  of pushes of its tag in the output built so far and in the items not yet scanned, a number
  that is never negative; so whenever a call site of a tag is inlined the count of the tag
  is at least 1 right before the decrement, and the decrement does not wrap the unsigned
  counter. The last hypothesis says that the two vectors of the state, \<^verbatim>\<open>newItems\<close> and
  what is left of \<^verbatim>\<open>m_items\<close>, hold fewer than \<open>2 ^ 64\<close> items together: they lie in
  one 64-bit address space, while a list of the model can be of any length.
\<close>

theorem callSiteCount_never_underflows:
  assumes "determineInlinableBlocks breaksCSEAnalysisBlock m_items = Inr blocks"
    and "optimiseReaches bytesRequired m_runs (initialState m_items blocks) s"
    and "length (newItems s) + length (remaining s) < 2 ^ 64"
  shows "(\<forall>t b. map_of (inlinableBlocks s) t = Some b
            \<longrightarrow> unat (pushTagCount b) = pushesOf t (newItems s) + pushesOf t (remaining s))
     \<and> (\<forall>item nextItem after2 B exitJump.
           remaining s = item # nextItem # after2 \<and> m_type item = PushTag
           \<and> equalsInstruction nextItem JUMP
           \<and> map_of (inlinableBlocks s) (m_data item) = Some B
           \<and> shouldInline bytesRequired m_runs (m_data item) nextItem B = Inr (Some exitJump)
         \<longrightarrow> 1 \<le> unat (pushTagCount B)
             \<and> unat (pushTagCount B - 1) = unat (pushTagCount B) - 1)"
proof -
  note ct = reach_countsTrackPushes [OF assms(1,2)]
  have first: "\<forall>t b. map_of (inlinableBlocks s) t = Some b
            \<longrightarrow> unat (pushTagCount b) = pushesOf t (newItems s) + pushesOf t (remaining s)"
  proof (intro allI impI)
    fix t b assume "map_of (inlinableBlocks s) t = Some b"
    with ct have c: "pushTagCount b = of_nat (pushesOf t (newItems s) + pushesOf t (remaining s))"
      by (simp add: countsTrackPushes_def)
    have "pushesOf t (newItems s) + pushesOf t (remaining s)
        \<le> length (newItems s) + length (remaining s)"
      by (intro add_mono pushesOf_le_length)
    from this assms(3) have "pushesOf t (newItems s) + pushesOf t (remaining s) < 2 ^ 64"
      by (rule le_less_trans)
    then show "unat (pushTagCount b) = pushesOf t (newItems s) + pushesOf t (remaining s)"
      unfolding c by (rule unat_of_nat_small)
  qed
  have second: "\<forall>item nextItem after2 B exitJump.
           remaining s = item # nextItem # after2 \<and> m_type item = PushTag
           \<and> equalsInstruction nextItem JUMP
           \<and> map_of (inlinableBlocks s) (m_data item) = Some B
           \<and> shouldInline bytesRequired m_runs (m_data item) nextItem B = Inr (Some exitJump)
         \<longrightarrow> 1 \<le> unat (pushTagCount B)
             \<and> unat (pushTagCount B - 1) = unat (pushTagCount B) - 1"
  proof (intro allI impI)
    fix item nextItem after2 B exitJump
    assume h: "remaining s = item # nextItem # after2 \<and> m_type item = PushTag
           \<and> equalsInstruction nextItem JUMP
           \<and> map_of (inlinableBlocks s) (m_data item) = Some B
           \<and> shouldInline bytesRequired m_runs (m_data item) nextItem B = Inr (Some exitJump)"
    then have "unat (pushTagCount B)
        = pushesOf (m_data item) (newItems s) + pushesOf (m_data item) (remaining s)"
      using first by blast
    moreover from h have "1 \<le> pushesOf (m_data item) (remaining s)"
      by (simp add: pushesOf_Cons)
    ultimately have one: "1 \<le> unat (pushTagCount B)" by linarith
    then have "unat (pushTagCount B - 1) = unat (pushTagCount B) - 1" by (rule unat_pred)
    with one show "1 \<le> unat (pushTagCount B)
             \<and> unat (pushTagCount B - 1) = unat (pushTagCount B) - 1" by simp
  qed
  from first second show ?thesis by (rule conjI)
qed

theorem callSiteCount_never_underflows_witness:
  "determineInlinableBlocks exampleBreaks exampleCall = Inr [(2, exampleBlock)]
   \<and> optimiseReaches exampleBytesRequired 200 (initialState exampleCall [(2, exampleBlock)])
        (initialState exampleCall [(2, exampleBlock)])
   \<and> length (newItems (initialState exampleCall [(2, exampleBlock)]))
        + length (remaining (initialState exampleCall [(2, exampleBlock)])) < 2 ^ 64
   \<and> unat (pushTagCount exampleBlock) = pushesOf 2 [] + pushesOf 2 exampleCall
   \<and> 1 \<le> unat (pushTagCount exampleBlock)
   \<and> unat (pushTagCount exampleBlock - 1) = unat (pushTagCount exampleBlock) - 1"
proof -
  let ?s0 = "initialState exampleCall [(2, exampleBlock)]"
  have n: "length (newItems ?s0) + length (remaining ?s0) < 2 ^ 64"
    by (simp add: initialState_def exampleCall_def)
  have r: "optimiseReaches exampleBytesRequired 200 ?s0 ?s0" by (rule optimiseReaches.start)
  note t = callSiteCount_never_underflows [OF exampleCall_blocks r n]
  have b: "map_of (inlinableBlocks ?s0) 2 = Some exampleBlock" by (simp add: initialState_def)
  from t b have "unat (pushTagCount exampleBlock)
      = pushesOf 2 (newItems ?s0) + pushesOf 2 (remaining ?s0)" by blast
  then have c1: "unat (pushTagCount exampleBlock) = pushesOf 2 [] + pushesOf 2 exampleCall"
    by (simp add: initialState_def)
  have h: "remaining ?s0 = pushTagItem 2 # jumpItem IntoFunction
             # [tagItem 2, operationItem 1, jumpItem OutOfFunction]
      \<and> m_type (pushTagItem 2) = PushTag \<and> equalsInstruction (jumpItem IntoFunction) JUMP
      \<and> map_of (inlinableBlocks ?s0) (m_data (pushTagItem 2)) = Some exampleBlock
      \<and> shouldInline exampleBytesRequired 200 (m_data (pushTagItem 2)) (jumpItem IntoFunction) exampleBlock
           = Inr (Some (jumpItem Ordinary))"
    using exampleCall_accepted
    by (simp add: initialState_def exampleCall_def pushTagItem_def equalsInstruction_def jumpItem_def)
  from t h have c2: "1 \<le> unat (pushTagCount exampleBlock)
      \<and> unat (pushTagCount exampleBlock - 1) = unat (pushTagCount exampleBlock) - 1" by blast
  from exampleCall_blocks r n c1 c2 show ?thesis by (intro conjI) simp_all
qed

end
